theory Spec2Isabelle
  imports Complex_Main "HOL-Library.AList" "HOL-Library.Multiset"
begin

section \<open>Data model (graph.h, Allocation.h, Utils.h)\<close>

text \<open>
  Conventions of the embedding.
  \<^item> A C++ \<^verbatim>\<open>int\<close> is a HOL \<open>int\<close>: signed overflow is undefined behaviour in C++,
    and the model describes the executions that are free of it.
  \<^item> A C++ \<^verbatim>\<open>double\<close> is a HOL \<open>real\<close>: rounding is not modelled.  The constant
    \<^verbatim>\<open>numeric_limits<double>::max()\<close> is the real number \<open>DBL_MAX\<close>.
  \<^item> A \<^verbatim>\<open>std::unordered_map\<close> is an association list with distinct keys; the order
    of the list is the iteration order of the map, which C++ leaves to the
    implementation.  Reading with \<^verbatim>\<open>operator[]\<close> inserts a value-initialised entry
    for an absent key, and the model writes that insertion out.
  \<^item> A \<^verbatim>\<open>std::vector\<close> is a list.
\<close>

record Node =
  id_node :: int
  demand :: int
  priority :: int

record Edge =
  u_edge :: int
  v_edge :: int
  cost :: real
  reliability :: real

record Graph =
  nodes :: "(int \<times> Node) list"
  adjacencyList :: "(int \<times> (int \<times> Edge) list) list"
  edges :: "Edge list"

record Vehicle =
  id_vehicle :: int
  capacity :: int
  currentLoad :: int
  route :: "int list"

record RouteCost =
  totalTime :: real
  reliabilityPenalty :: real
  idleTime :: real
  finalScore :: real

definition DBL_MAX :: real where
  "DBL_MAX = (2 - 1 / 2 ^ 52) * 2 ^ 1023"

subsection \<open>Graph (graph.h)\<close>

definition emptyGraph :: Graph where
  "emptyGraph = \<lparr>nodes = [], adjacencyList = [], edges = []\<rparr>"

text \<open>\<^verbatim>\<open>Graph::addNode\<close>: \<^verbatim>\<open>nodes[node.id] = node\<close>, and an empty adjacency entry when
  the id has none yet.  A new key goes to the end of the list; an implementation of the
  map may enumerate it elsewhere (the newest key first, for one).  The general statements
  below hold for every enumeration order, and the statements about concrete runs are
  chosen so that they hold whether the ids are enumerated in the order of insertion or
  the newest first.\<close>

definition addNode :: "Node \<Rightarrow> Graph \<Rightarrow> Graph" where
  "addNode n g =
     g\<lparr>nodes := AList.update (id_node n) n (nodes g),
       adjacencyList :=
         (if map_of (adjacencyList g) (id_node n) = None
          then AList.update (id_node n) [] (adjacencyList g)
          else adjacencyList g)\<rparr>"

text \<open>\<^verbatim>\<open>adjacencyList[k].push_back(x)\<close>: the entry of \<open>k\<close> is created empty when absent.\<close>

definition pushAdj ::
  "int \<Rightarrow> int \<times> Edge \<Rightarrow> (int \<times> (int \<times> Edge) list) list \<Rightarrow> (int \<times> (int \<times> Edge) list) list" where
  "pushAdj k x al = AList.map_default k [x] (\<lambda>xs. xs @ [x]) al"

definition addEdge :: "Edge \<Rightarrow> Graph \<Rightarrow> Graph" where
  "addEdge e g =
     g\<lparr>edges := edges g @ [e],
       adjacencyList :=
         pushAdj (v_edge e) (u_edge e, e)
           (pushAdj (u_edge e) (v_edge e, e) (adjacencyList g))\<rparr>"

definition getNeighbors :: "Graph \<Rightarrow> int \<Rightarrow> (int \<times> Edge) list" where
  "getNeighbors g nodeId =
     (case map_of (adjacencyList g) nodeId of Some ns \<Rightarrow> ns | None \<Rightarrow> [])"

definition getNode :: "Graph \<Rightarrow> int \<Rightarrow> Node option" where
  "getNode g nodeId = map_of (nodes g) nodeId"

definition getAllNodeIds :: "Graph \<Rightarrow> int list" where
  "getAllNodeIds g = map fst (nodes g)"

definition getEdgeCost :: "Graph \<Rightarrow> int \<Rightarrow> int \<Rightarrow> real" where
  "getEdgeCost g a b =
     (case List.find (\<lambda>neighbor. fst neighbor = b) (getNeighbors g a) of
        Some neighbor \<Rightarrow> cost (snd neighbor)
      | None \<Rightarrow> - 1)"

definition getEdgeReliability :: "Graph \<Rightarrow> int \<Rightarrow> int \<Rightarrow> real" where
  "getEdgeReliability g a b =
     (case List.find (\<lambda>neighbor. fst neighbor = b) (getNeighbors g a) of
        Some neighbor \<Rightarrow> reliability (snd neighbor)
      | None \<Rightarrow> 0)"

text \<open>A graph is built by a sequence of \<^verbatim>\<open>addNode\<close> and \<^verbatim>\<open>addEdge\<close> calls on an empty
  graph, as the loaders do.\<close>

datatype GraphOp = AddNode Node | AddEdge Edge

fun applyOp :: "Graph \<Rightarrow> GraphOp \<Rightarrow> Graph" where
  "applyOp g (AddNode n) = addNode n g"
| "applyOp g (AddEdge e) = addEdge e g"

definition buildGraph :: "GraphOp list \<Rightarrow> Graph" where
  "buildGraph ops = foldl applyOp emptyGraph ops"

subsection \<open>Cost model (Utils.h)\<close>

definition ALPHA :: real where "ALPHA = 6 / 10"
definition BETA :: real where "BETA = 3 / 10"
definition GAMMA :: real where "GAMMA = 1 / 10"

text \<open>The loop of \<^verbatim>\<open>calculateRouteCost\<close> over the consecutive pairs of the route; the
  accumulator is \<open>(cost.totalTime, totalReliability)\<close>.\<close>

fun routeCostLoop :: "Graph \<Rightarrow> int list \<Rightarrow> real \<times> real \<Rightarrow> real \<times> real" where
  "routeCostLoop g (a # b # rest) (t, r) =
     (let edgeCost = getEdgeCost g a b;
          edgeReliability = getEdgeReliability g a b
      in routeCostLoop g (b # rest)
           (if edgeCost \<ge> 0 then (t + edgeCost, r * edgeReliability) else (t, r)))"
| "routeCostLoop g [a] acc = acc"
| "routeCostLoop g [] acc = acc"

definition calculateRouteCost :: "Graph \<Rightarrow> int list \<Rightarrow> int \<Rightarrow> int \<Rightarrow> RouteCost" where
  "calculateRouteCost g rt vehicleCapacity vehicleLoad =
     (if length rt < 2
      then \<lparr>totalTime = 0, reliabilityPenalty = 0, idleTime = 0, finalScore = 0\<rparr>
      else
        let (t, totalReliability) = routeCostLoop g rt (0, 1);
            penalty = 1 - totalReliability;
            unusedCapacity = vehicleCapacity - vehicleLoad;
            idle = real_of_int unusedCapacity
        in \<lparr>totalTime = t, reliabilityPenalty = penalty, idleTime = idle,
            finalScore = ALPHA * t + BETA * penalty + GAMMA * idle\<rparr>)"

text \<open>The cost model in the words of the specification: the traversed pairs are the
  consecutive pairs whose cost lookup is not negative.\<close>

definition traversedPairs :: "Graph \<Rightarrow> int list \<Rightarrow> (int \<times> int) list" where
  "traversedPairs g rt = filter (\<lambda>(a, b). \<not> getEdgeCost g a b < 0) (zip rt (tl rt))"

definition specTotalTime :: "Graph \<Rightarrow> int list \<Rightarrow> real" where
  "specTotalTime g rt = sum_list (map (\<lambda>(a, b). getEdgeCost g a b) (traversedPairs g rt))"

definition specReliabilityPenalty :: "Graph \<Rightarrow> int list \<Rightarrow> real" where
  "specReliabilityPenalty g rt =
     1 - prod_list (map (\<lambda>(a, b). getEdgeReliability g a b) (traversedPairs g rt))"

text \<open>The scenario of the specification: depot \<open>0\<close>, location \<open>1\<close> (demand 5, priority 3),
  location \<open>2\<close> (demand 5, priority 5), roads \<open>0-1\<close> (cost 2, reliability 1),
  \<open>0-2\<close> (cost 3, reliability 0.9) and \<open>1-2\<close> (cost 1, reliability 1).\<close>

definition scenarioGraph :: Graph where
  "scenarioGraph = buildGraph
     [AddNode \<lparr>id_node = 0, demand = 0, priority = 0\<rparr>,
      AddNode \<lparr>id_node = 1, demand = 5, priority = 3\<rparr>,
      AddNode \<lparr>id_node = 2, demand = 5, priority = 5\<rparr>,
      AddEdge \<lparr>u_edge = 0, v_edge = 1, cost = 2, reliability = 1\<rparr>,
      AddEdge \<lparr>u_edge = 0, v_edge = 2, cost = 3, reliability = 9 / 10\<rparr>,
      AddEdge \<lparr>u_edge = 1, v_edge = 2, cost = 1, reliability = 1\<rparr>]"

subsection \<open>Route optimiser (algorithms.h, \<^verbatim>\<open>twoOpt\<close>)\<close>

text \<open>The two cost loops of \<^verbatim>\<open>twoOpt\<close>: the sum of the looked-up costs from the left,
  abandoned (\<open>None\<close>, the flag \<^verbatim>\<open>valid\<close> false) at the first negative lookup.\<close>

fun routeCostValid :: "Graph \<Rightarrow> int list \<Rightarrow> real \<Rightarrow> real option" where
  "routeCostValid g (a # b # rest) acc =
     (let c = getEdgeCost g a b
      in if c < 0 then None else routeCostValid g (b # rest) (acc + c))"
| "routeCostValid g [a] acc = Some acc"
| "routeCostValid g [] acc = Some acc"

text \<open>\<^verbatim>\<open>reverse(newRoute.begin() + i, newRoute.begin() + j + 1)\<close>.\<close>

definition reverseSegment :: "nat \<Rightarrow> nat \<Rightarrow> 'a list \<Rightarrow> 'a list" where
  "reverseSegment i j xs = take i xs @ rev (take (j + 1 - i) (drop i xs)) @ drop (j + 1) xs"

text \<open>The body of the inner loop at the cut points \<open>(i, j)\<close>: \<open>Some newRoute\<close> when the
  reversal is accepted, \<open>None\<close> when the loop goes on (the current route is not valid,
  the new route is not valid, or it is not strictly cheaper).\<close>

definition tryReverse :: "Graph \<Rightarrow> int list \<Rightarrow> nat \<Rightarrow> nat \<Rightarrow> int list option" where
  "tryReverse g bestRoute i j =
     (case routeCostValid g bestRoute 0 of
        None \<Rightarrow> None
      | Some currentCost \<Rightarrow>
          let newRoute = reverseSegment i j bestRoute
          in (case routeCostValid g newRoute 0 of
                None \<Rightarrow> None
              | Some newCost \<Rightarrow> if newCost < currentCost then Some newRoute else None))"

text \<open>The loop over \<open>j\<close> from a given value up to \<open>size - 2\<close>, left at the first accepted
  reversal.\<close>

function scanJ :: "Graph \<Rightarrow> int list \<Rightarrow> nat \<Rightarrow> nat \<Rightarrow> int list option" where
  "scanJ g bestRoute i j =
     (if j < length bestRoute - 1
      then (case tryReverse g bestRoute i j of
              Some newRoute \<Rightarrow> Some newRoute
            | None \<Rightarrow> scanJ g bestRoute i (j + 1))
      else None)"
  by pat_completeness auto
termination
  by (relation "measure (\<lambda>(g, bestRoute, i, j). length bestRoute - j)") auto

text \<open>The loop over \<open>i\<close> from a given value up to \<open>size - 3\<close>; the \<^verbatim>\<open>break\<close> after an
  improvement leaves it.\<close>

function scanI :: "Graph \<Rightarrow> int list \<Rightarrow> nat \<Rightarrow> int list option" where
  "scanI g bestRoute i =
     (if i < length bestRoute - 2
      then (case scanJ g bestRoute i (i + 1) of
              Some newRoute \<Rightarrow> Some newRoute
            | None \<Rightarrow> scanI g bestRoute (i + 1))
      else None)"
  by pat_completeness auto
termination
  by (relation "measure (\<lambda>(g, bestRoute, i). length bestRoute - i)") auto

text \<open>The \<^verbatim>\<open>while (improved)\<close> loop.  Nothing in its text bounds the number of rounds, so
  it is a partial function: \<open>None\<close> stands for a loop that never ends.\<close>

partial_function (option) twoOptLoop :: "Graph \<Rightarrow> int list \<Rightarrow> int list option" where
  "twoOptLoop g bestRoute =
     (case scanI g bestRoute 1 of
        Some newRoute \<Rightarrow> twoOptLoop g newRoute
      | None \<Rightarrow> Some bestRoute)"

definition twoOpt :: "Graph \<Rightarrow> int list \<Rightarrow> int list option" where
  "twoOpt g rt = (if length rt \<le> 3 then Some rt else twoOptLoop g rt)"

text \<open>An accepted move: both routes are valid, the new one is strictly cheaper, and it
  has the same elements and the same end points.\<close>

definition improves :: "Graph \<Rightarrow> int list \<Rightarrow> int list \<Rightarrow> bool" where
  "improves g r r' \<longleftrightarrow>
     (\<exists>c c'. routeCostValid g r 0 = Some c \<and> routeCostValid g r' 0 = Some c' \<and> c' < c)
     \<and> mset r' = mset r \<and> hd r' = hd r \<and> last r' = last r"

text \<open>The rearrangements of a route that are valid and strictly cheaper than it.\<close>

definition cheaper :: "Graph \<Rightarrow> int list \<Rightarrow> int list set" where
  "cheaper g r = {r'. mset r' = mset r \<and>
     (\<exists>c c'. routeCostValid g r 0 = Some c \<and> routeCostValid g r' 0 = Some c' \<and> c' < c)}"

text \<open>The total of the looked-up costs along a route, every lookup counted as it is
  returned.\<close>

definition edgeCostSum :: "Graph \<Rightarrow> int list \<Rightarrow> real" where
  "edgeCostSum g rt = sum_list (map (\<lambda>(a, b). getEdgeCost g a b) (zip rt (tl rt)))"

text \<open>A square with sides of cost 1 and diagonals of cost 2; the route \<open>0, 2, 1, 3, 0\<close>
  crosses itself.\<close>

definition bowtieGraph :: Graph where
  "bowtieGraph = buildGraph
     [AddNode \<lparr>id_node = 0, demand = 0, priority = 0\<rparr>,
      AddNode \<lparr>id_node = 1, demand = 1, priority = 1\<rparr>,
      AddNode \<lparr>id_node = 2, demand = 1, priority = 1\<rparr>,
      AddNode \<lparr>id_node = 3, demand = 1, priority = 1\<rparr>,
      AddEdge \<lparr>u_edge = 0, v_edge = 1, cost = 1, reliability = 1\<rparr>,
      AddEdge \<lparr>u_edge = 1, v_edge = 2, cost = 1, reliability = 1\<rparr>,
      AddEdge \<lparr>u_edge = 2, v_edge = 3, cost = 1, reliability = 1\<rparr>,
      AddEdge \<lparr>u_edge = 3, v_edge = 0, cost = 1, reliability = 1\<rparr>,
      AddEdge \<lparr>u_edge = 0, v_edge = 2, cost = 2, reliability = 1\<rparr>,
      AddEdge \<lparr>u_edge = 1, v_edge = 3, cost = 2, reliability = 1\<rparr>]"


subsection \<open>Shortest paths (algorithms.h, \<^verbatim>\<open>dijkstra\<close>)\<close>

text \<open>\<^verbatim>\<open>m[k]\<close> used as a value on an \<^verbatim>\<open>unordered_map\<close>: the map after the access (an
  absent key is inserted with the default \<open>d\<close>) and the value read.\<close>

definition touch :: "('k \<rightharpoonup> 'v) \<Rightarrow> 'k \<Rightarrow> 'v \<Rightarrow> ('k \<rightharpoonup> 'v)" where
  "touch m k d = (case m k of Some x \<Rightarrow> m | None \<Rightarrow> m(k \<mapsto> d))"

definition valueAt :: "('k \<rightharpoonup> 'v) \<Rightarrow> 'k \<Rightarrow> 'v \<Rightarrow> 'v" where
  "valueAt m k d = (case m k of Some x \<Rightarrow> x | None \<Rightarrow> d)"

text \<open>The priority queue \<^verbatim>\<open>priority_queue<pair<double, int>, ..., greater<...>>\<close> is a list
  of its entries; its top is the least entry in the lexicographic order of pairs.\<close>

definition pairLess :: "real \<times> int \<Rightarrow> real \<times> int \<Rightarrow> bool" where
  "pairLess a b \<longleftrightarrow> fst a < fst b \<or> (fst a = fst b \<and> snd a < snd b)"

fun pqTop :: "(real \<times> int) list \<Rightarrow> (real \<times> int) option" where
  "pqTop [] = None"
| "pqTop (x # xs) =
     (case pqTop xs of
        None \<Rightarrow> Some x
      | Some m \<Rightarrow> if pairLess m x then Some m else Some x)"

type_synonym dijkstraState = "(int \<rightharpoonup> real) \<times> (int \<rightharpoonup> bool) \<times> (real \<times> int) list"

text \<open>The body of the loop over the neighbours of \<open>u\<close>.\<close>

fun relax :: "int \<Rightarrow> dijkstraState \<Rightarrow> int \<times> Edge \<Rightarrow> dijkstraState" where
  "relax u (distMap, visited, pq) neighbor =
     (let v = fst neighbor;
          edgeCost = cost (snd neighbor);
          visited1 = touch visited v False
      in if valueAt visited v False then (distMap, visited1, pq)
         else
           let distMap1 = touch (touch distMap u 0) v 0;
               newDist = valueAt distMap1 u 0 + edgeCost
           in if newDist < valueAt distMap1 v 0
              then (distMap1(v \<mapsto> newDist), visited1, pq @ [(newDist, v)])
              else (distMap1, visited1, pq))"

text \<open>One round of the \<^verbatim>\<open>while (!pq.empty())\<close> loop.\<close>

fun dijkstraStep :: "Graph \<Rightarrow> dijkstraState \<Rightarrow> dijkstraState" where
  "dijkstraStep g (distMap, visited, pq) =
     (case pqTop pq of
        None \<Rightarrow> (distMap, visited, pq)
      | Some entry \<Rightarrow>
          let u = snd entry;
              pq1 = remove1 entry pq;
              visited1 = touch visited u False
          in if valueAt visited u False then (distMap, visited1, pq1)
             else foldl (relax u) (distMap, visited1(u \<mapsto> True), pq1) (getNeighbors g u))"

text \<open>The ids that can enter the queue: the neighbour ids of the adjacency structure.\<close>

definition neighbourIds :: "Graph \<Rightarrow> int set" where
  "neighbourIds g = (\<Union>entry \<in> set (adjacencyList g). fst ` set (snd entry))"

definition visitedSet :: "(int \<rightharpoonup> bool) \<Rightarrow> int set" where
  "visitedSet visited = {k. visited k = Some True}"

definition pending :: "Graph \<Rightarrow> dijkstraState \<Rightarrow> int set" where
  "pending g s = (neighbourIds g \<union> snd ` set (snd (snd s))) - visitedSet (fst (snd s))"

lemma finite_neighbourIds: "finite (neighbourIds g)"
  by (simp add: neighbourIds_def)

lemma finite_pending: "finite (pending g s)"
  by (simp add: pending_def finite_neighbourIds)

lemma getNeighbors_neighbourIds: "fst ` set (getNeighbors g u) \<subseteq> neighbourIds g"
proof (cases "map_of (adjacencyList g) u")
  case None
  then show ?thesis by (simp add: getNeighbors_def)
next
  case (Some ns)
  then have "(u, ns) \<in> set (adjacencyList g)" by (rule map_of_SomeD)
  then have "fst ` set ns \<subseteq> neighbourIds g"
    unfolding neighbourIds_def by force
  with Some show ?thesis by (simp add: getNeighbors_def)
qed

lemma pqTop_None [simp]: "pqTop pq = None \<longleftrightarrow> pq = []"
  by (induction pq) (auto split: option.splits)

lemma pqTop_in: "pqTop pq = Some entry \<Longrightarrow> entry \<in> set pq"
  by (induction pq arbitrary: entry) (auto split: option.splits if_splits)

lemma visitedSet_touch [simp]: "visitedSet (touch visited k False) = visitedSet visited"
  by (auto simp: visitedSet_def touch_def split: option.splits)

lemma relax_visitedSet:
  "visitedSet (fst (snd (relax u s nb))) = visitedSet (fst (snd s))"
  by (cases s) (auto simp: Let_def)

lemma relax_queue:
  "snd ` set (snd (snd (relax u s nb))) \<subseteq> insert (fst nb) (snd ` set (snd (snd s)))"
  by (cases s) (auto simp: Let_def)

lemma foldl_relax_visitedSet:
  "visitedSet (fst (snd (foldl (relax u) s nbs))) = visitedSet (fst (snd s))"
  by (induction nbs arbitrary: s) (simp_all add: relax_visitedSet)

lemma foldl_relax_queue:
  "snd ` set (snd (snd (foldl (relax u) s nbs))) \<subseteq> fst ` set nbs \<union> snd ` set (snd (snd s))"
proof (induction nbs arbitrary: s)
  case Nil
  show ?case by simp
next
  case (Cons nb nbs)
  from Cons.IH [of "relax u s nb"] relax_queue [of u s nb] show ?case by auto
qed

lemma dijkstraStep_pending:
  assumes tp: "pqTop pq = Some tp"
  shows "(card (pending g (dijkstraStep g (distMap, visited, pq))) < card (pending g (distMap, visited, pq)))
    \<or> (card (pending g (dijkstraStep g (distMap, visited, pq))) = card (pending g (distMap, visited, pq))
       \<and> length (snd (snd (dijkstraStep g (distMap, visited, pq)))) < length pq)"
proof -
  let ?s = "(distMap, visited, pq)"
  from tp have mem: "tp \<in> set pq" by (rule pqTop_in)
  have rem: "snd ` set (remove1 tp pq) \<subseteq> snd ` set pq"
    using set_remove1_subset [of tp pq] by blast
  show ?thesis
  proof (cases "valueAt visited (snd tp) False")
    case True
    then have step: "dijkstraStep g ?s = (distMap, touch visited (snd tp) False, remove1 tp pq)"
      by (simp add: tp Let_def)
    have "pending g (dijkstraStep g ?s) \<subseteq> pending g ?s"
      unfolding step using rem by (auto simp: pending_def)
    then have "card (pending g (dijkstraStep g ?s)) \<le> card (pending g ?s)"
      by (rule card_mono [OF finite_pending])
    moreover have "length (remove1 tp pq) < length pq"
      using mem length_pos_if_in_set [OF mem] by (simp add: length_remove1)
    then have "length (snd (snd (dijkstraStep g ?s))) < length pq"
      unfolding step by simp
    ultimately show ?thesis by linarith
  next
    case False
    define s1 where "s1 = (distMap, (touch visited (snd tp) False)(snd tp \<mapsto> True), remove1 tp pq)"
    from False have step: "dijkstraStep g ?s = foldl (relax (snd tp)) s1 (getNeighbors g (snd tp))"
      by (simp add: tp Let_def s1_def)
    have "visitedSet (fst (snd s1)) = insert (snd tp) (visitedSet visited)"
      by (auto simp: s1_def visitedSet_def touch_def split: option.splits)
    then have vis: "visitedSet (fst (snd (dijkstraStep g ?s))) = insert (snd tp) (visitedSet visited)"
      by (simp only: step foldl_relax_visitedSet)
    have "snd ` set (snd (snd s1)) \<subseteq> snd ` set pq"
      using rem by (simp add: s1_def)
    with foldl_relax_queue [of "snd tp" s1 "getNeighbors g (snd tp)"]
      getNeighbors_neighbourIds [of g "snd tp"]
    have "snd ` set (snd (snd (dijkstraStep g ?s))) \<subseteq> neighbourIds g \<union> snd ` set pq"
      unfolding step by blast
    with vis have sub: "pending g (dijkstraStep g ?s) \<subseteq> pending g ?s - {snd tp}"
      unfolding pending_def by auto
    from False have "snd tp \<notin> visitedSet visited"
      by (auto simp: visitedSet_def valueAt_def)
    with mem have "snd tp \<in> pending g ?s" by (auto simp: pending_def)
    with sub have "pending g (dijkstraStep g ?s) \<subset> pending g ?s" by blast
    then have "card (pending g (dijkstraStep g ?s)) < card (pending g ?s)"
      by (rule psubset_card_mono [OF finite_pending])
    then show ?thesis by simp
  qed
qed

lemma dijkstraStep_decreases:
  assumes "snd (snd s) \<noteq> []"
  shows "((g, dijkstraStep g s), (g, s))
    \<in> measures [\<lambda>(g, s). card (pending g s), \<lambda>(g, s). length (snd (snd s))]"
proof -
  obtain distMap visited pq where s: "s = (distMap, visited, pq)" by (cases s)
  with assms obtain tp where tp: "pqTop pq = Some tp"
    by (cases "pqTop pq") auto
  from dijkstraStep_pending [OF tp, of g distMap visited] show ?thesis
    unfolding s by auto
qed

function dijkstraLoop :: "Graph \<Rightarrow> dijkstraState \<Rightarrow> dijkstraState" where
  "dijkstraLoop g s = (if snd (snd s) = [] then s else dijkstraLoop g (dijkstraStep g s))"
  by pat_completeness auto
termination
proof (relation "measures [\<lambda>(g, s). card (pending g s), \<lambda>(g, s). length (snd (snd s))]")
  show "wf (measures [\<lambda>(g, s). card (pending g s), \<lambda>(g, s). length (snd (snd s))])"
    by simp
next
  fix g :: Graph and s :: dijkstraState
  assume "snd (snd s) \<noteq> []"
  then show "((g, dijkstraStep g s), (g, s))
    \<in> measures [\<lambda>(g, s). card (pending g s), \<lambda>(g, s). length (snd (snd s))]"
    by (rule dijkstraStep_decreases)
qed

declare dijkstraLoop.simps [simp del]

text \<open>\<^verbatim>\<open>dijkstra\<close>: every id of the node map starts at \<open>DBL_MAX\<close> and unvisited, the source
  at \<open>0\<close>; the result is the distance map when the queue is empty.\<close>

definition dijkstraInit :: "Graph \<Rightarrow> int \<Rightarrow> dijkstraState" where
  "dijkstraInit g source =
     (let distMap = foldl (\<lambda>m nodeId. m(nodeId \<mapsto> DBL_MAX)) Map.empty (getAllNodeIds g);
          visited = foldl (\<lambda>m nodeId. m(nodeId \<mapsto> False)) Map.empty (getAllNodeIds g)
      in (distMap(source \<mapsto> 0), visited, [(0, source)]))"

definition dijkstra :: "Graph \<Rightarrow> int \<Rightarrow> (int \<rightharpoonup> real)" where
  "dijkstra g source = fst (dijkstraLoop g (dijkstraInit g source))"

subsection \<open>Allocation (Allocation.h)\<close>

definition canServe :: "Vehicle \<Rightarrow> int \<Rightarrow> bool" where
  "canServe vehicle d \<longleftrightarrow> currentLoad vehicle + d \<le> capacity vehicle"

text \<open>\<^verbatim>\<open>Vehicle::addNode\<close>.\<close>

definition addNode_vehicle :: "Vehicle \<Rightarrow> int \<Rightarrow> int \<Rightarrow> Vehicle" where
  "addNode_vehicle vehicle nodeId d =
     vehicle\<lparr>route := route vehicle @ [nodeId], currentLoad := currentLoad vehicle + d\<rparr>"

definition finalizeRoute :: "Vehicle \<Rightarrow> Vehicle" where
  "finalizeRoute vehicle = vehicle\<lparr>route := route vehicle @ [0]\<rparr>"

text \<open>The constructor \<^verbatim>\<open>Vehicle(id, capacity)\<close>.\<close>

definition newVehicle :: "int \<Rightarrow> int \<Rightarrow> Vehicle" where
  "newVehicle i c = \<lparr>id_vehicle = i, capacity = c, currentLoad = 0, route = [0]\<rparr>"

text \<open>The ids collected into \<^verbatim>\<open>nodesToAssign\<close>, in the iteration order of the node map.\<close>

definition nodesToAssign :: "Graph \<Rightarrow> int list" where
  "nodesToAssign g =
     filter (\<lambda>nodeId. nodeId \<noteq> 0 \<and>
               (case getNode g nodeId of Some node \<Rightarrow> demand node > 0 | None \<Rightarrow> False))
       (getAllNodeIds g)"

text \<open>The comparator handed to \<^verbatim>\<open>sort\<close>.\<close>

definition higherPriority :: "Graph \<Rightarrow> int \<Rightarrow> int \<Rightarrow> bool" where
  "higherPriority g a b =
     (case (getNode g a, getNode g b) of
        (Some nodeA, Some nodeB) \<Rightarrow> priority nodeA > priority nodeB
      | _ \<Rightarrow> False)"

text \<open>\<^verbatim>\<open>std::sort\<close> with a comparator.  C++ does not say in which order elements that the
  comparator does not separate come out.  The model is the insertion sort that the
  usual implementations run on short ranges: each element moves left past the
  elements it is strictly before, so inseparable elements keep their order.\<close>

fun insertSorted :: "('a \<Rightarrow> 'a \<Rightarrow> bool) \<Rightarrow> 'a \<Rightarrow> 'a list \<Rightarrow> 'a list" where
  "insertSorted lt x [] = [x]"
| "insertSorted lt x (y # ys) =
     (if lt x y then x # y # ys else y # insertSorted lt x ys)"

definition sortBy :: "('a \<Rightarrow> 'a \<Rightarrow> bool) \<Rightarrow> 'a list \<Rightarrow> 'a list" where
  "sortBy lt xs = foldl (\<lambda>sorted x. insertSorted lt x sorted) [] xs"

definition processingOrder :: "Graph \<Rightarrow> int list" where
  "processingOrder g = sortBy (higherPriority g) (nodesToAssign g)"

text \<open>\<^verbatim>\<open>vehicle.route.back()\<close> on an empty route is undefined behaviour; the model stops
  with an error there.\<close>

datatype error = EmptyRoute

text \<open>The cost of serving \<open>nodeId\<close> next: the distance that \<^verbatim>\<open>dijkstra\<close> reports from the
  last node of the route, \<open>DBL_MAX\<close> when the map has no entry.\<close>

definition extraCostOf :: "Graph \<Rightarrow> Vehicle \<Rightarrow> int \<Rightarrow> real" where
  "extraCostOf g vehicle nodeId =
     (let lastNode = last (route vehicle);
          distances = dijkstra g lastNode
      in case distances nodeId of Some d \<Rightarrow> d | None \<Rightarrow> DBL_MAX)"

text \<open>The loop over the vehicles from index \<open>i\<close> on; the accumulator is
  \<open>(bestVehicle, minExtraCost)\<close>, with \<open>None\<close> for \<open>-1\<close>.\<close>

fun chooseVehicle ::
  "Graph \<Rightarrow> Node \<Rightarrow> int \<Rightarrow> Vehicle list \<Rightarrow> nat \<Rightarrow> nat option \<times> real \<Rightarrow> error + nat option \<times> real" where
  "chooseVehicle g node nodeId [] i acc = Inr acc"
| "chooseVehicle g node nodeId (vehicle # rest) i (bestVehicle, minExtraCost) =
     (if \<not> canServe vehicle (demand node)
      then chooseVehicle g node nodeId rest (i + 1) (bestVehicle, minExtraCost)
      else if route vehicle = [] then Inl EmptyRoute
      else
        let extraCost = extraCostOf g vehicle nodeId
        in if extraCost < minExtraCost \<and> extraCost < DBL_MAX
           then chooseVehicle g node nodeId rest (i + 1) (Some i, extraCost)
           else chooseVehicle g node nodeId rest (i + 1) (bestVehicle, minExtraCost))"

text \<open>The body of the loop over \<^verbatim>\<open>nodesToAssign\<close>.\<close>

definition assignNode :: "Graph \<Rightarrow> Vehicle list \<Rightarrow> int \<Rightarrow> error + Vehicle list" where
  "assignNode g assignedVehicles nodeId =
     (case getNode g nodeId of
        None \<Rightarrow> Inr assignedVehicles
      | Some node \<Rightarrow>
          (case chooseVehicle g node nodeId assignedVehicles 0 (None, DBL_MAX) of
             Inl e \<Rightarrow> Inl e
           | Inr (None, minExtraCost) \<Rightarrow> Inr assignedVehicles
           | Inr (Some bestVehicle, minExtraCost) \<Rightarrow>
               Inr (assignedVehicles[bestVehicle :=
                      addNode_vehicle (assignedVehicles ! bestVehicle) nodeId (demand node)])))"

fun assignAll :: "Graph \<Rightarrow> int list \<Rightarrow> Vehicle list \<Rightarrow> error + Vehicle list" where
  "assignAll g [] assignedVehicles = Inr assignedVehicles"
| "assignAll g (nodeId # rest) assignedVehicles =
     (case assignNode g assignedVehicles nodeId of
        Inl e \<Rightarrow> Inl e
      | Inr assignedVehicles' \<Rightarrow> assignAll g rest assignedVehicles')"

definition allocateVehicles :: "Graph \<Rightarrow> Vehicle list \<Rightarrow> error + Vehicle list" where
  "allocateVehicles g vehicles =
     (case assignAll g (processingOrder g) vehicles of
        Inl e \<Rightarrow> Inl e
      | Inr assignedVehicles \<Rightarrow> Inr (map finalizeRoute assignedVehicles))"

definition candidate :: "Graph \<Rightarrow> Node \<Rightarrow> int \<Rightarrow> Vehicle \<Rightarrow> bool" where
  "candidate g node nodeId vehicle \<longleftrightarrow>
     canServe vehicle (demand node) \<and> extraCostOf g vehicle nodeId < DBL_MAX"

subsection \<open>Priorities\<close>

definition prio :: "Graph \<Rightarrow> int \<Rightarrow> int" where
  "prio g nodeId = (case getNode g nodeId of Some node \<Rightarrow> priority node | None \<Rightarrow> 0)"

subsection \<open>Routes as multisets\<close>

definition wellFormed :: "Graph \<Rightarrow> bool" where
  "wellFormed g \<longleftrightarrow> distinct (map fst (nodes g)) \<and> distinct (map fst (adjacencyList g))"

text \<open>The order of processing that claim C6 describes: priority descending, and
  ascending id among equal priorities.\<close>

definition priorityThenId :: "Graph \<Rightarrow> int list \<Rightarrow> bool" where
  "priorityThenId g ns \<longleftrightarrow>
     sorted_wrt (\<lambda>a b. prio g b < prio g a \<or> (prio g a = prio g b \<and> a < b)) ns"

text \<open>Three locations of equal priority, added in the order \<open>1, 3, 2\<close>.\<close>

definition tieGraph :: Graph where
  "tieGraph = buildGraph
     [AddNode \<lparr>id_node = 0, demand = 0, priority = 0\<rparr>,
      AddNode \<lparr>id_node = 1, demand = 1, priority = 4\<rparr>,
      AddNode \<lparr>id_node = 3, demand = 1, priority = 4\<rparr>,
      AddNode \<lparr>id_node = 2, demand = 1, priority = 4\<rparr>]"

text \<open>\<open>walk g s t d\<close>: the roads of \<open>g\<close> lead from \<open>s\<close> to \<open>t\<close> along a sequence of
  adjacency entries whose costs add up to \<open>d\<close>.\<close>

inductive walk :: "Graph \<Rightarrow> int \<Rightarrow> int \<Rightarrow> real \<Rightarrow> bool" for g :: Graph and s :: int where
  start: "walk g s s 0"
| step: "walk g s u d \<Longrightarrow> (v, e) \<in> set (getNeighbors g u) \<Longrightarrow> walk g s v (d + cost e)"

definition nonNegativeCosts :: "Graph \<Rightarrow> bool" where
  "nonNegativeCosts g \<longleftrightarrow>
     (\<forall>entry \<in> set (adjacencyList g). \<forall>neighbor \<in> set (snd entry). 0 \<le> cost (snd neighbor))"

definition endpointsDeclared :: "Graph \<Rightarrow> bool" where
  "endpointsDeclared g \<longleftrightarrow>
     (\<forall>entry \<in> set (adjacencyList g). \<forall>neighbor \<in> set (snd entry).
        fst neighbor \<in> set (getAllNodeIds g))"

text \<open>The invariant of the loop of \<^verbatim>\<open>dijkstra\<close> started at \<open>s\<close>.  The set \<open>todo\<close> holds the
  adjacency entries of the node being expanded that the inner loop has not reached.\<close>

definition dijkstraInv ::
  "Graph \<Rightarrow> int \<Rightarrow> (int \<times> int \<times> Edge) set \<Rightarrow> dijkstraState \<Rightarrow> bool" where
  "dijkstraInv g s todo st \<longleftrightarrow>
     (let distMap = fst st; done = visitedSet (fst (snd st)); pq = snd (snd st) in
      dom distMap = set (getAllNodeIds g) \<union> {s}
      \<and> (\<forall>v d. distMap v = Some d \<longrightarrow> 0 \<le> d \<and> d \<le> DBL_MAX \<and> (d < DBL_MAX \<longrightarrow> walk g s v d))
      \<and> (\<forall>entry \<in> set pq. fst entry < DBL_MAX
            \<and> (\<exists>d. distMap (snd entry) = Some d \<and> d \<le> fst entry))
      \<and> (\<forall>v d. v \<notin> done \<and> distMap v = Some d \<and> d < DBL_MAX \<longrightarrow> (d, v) \<in> set pq)
      \<and> (\<forall>u \<in> done. \<exists>du. distMap u = Some du \<and> du < DBL_MAX
            \<and> (\<forall>d. walk g s u d \<longrightarrow> du \<le> d)
            \<and> (\<forall>neighbor \<in> set (getNeighbors g u). (u, neighbor) \<notin> todo \<longrightarrow>
                  (\<exists>dv. distMap (fst neighbor) = Some dv \<and> dv \<le> du + cost (snd neighbor))))
      \<and> (s \<in> done \<or> (done = {} \<and> pq = [(0, s)] \<and> distMap s = Some 0)))"

definition reachable :: "Graph \<Rightarrow> int \<Rightarrow> int \<Rightarrow> bool" where
  "reachable g s t \<longleftrightarrow> (\<exists>d. walk g s t d)"

text \<open>\<open>d\<close> is the minimum cumulative road cost from \<open>s\<close> to \<open>t\<close>.\<close>

definition minCost :: "Graph \<Rightarrow> int \<Rightarrow> int \<Rightarrow> real \<Rightarrow> bool" where
  "minCost g s t d \<longleftrightarrow> walk g s t d \<and> (\<forall>d'. walk g s t d' \<longrightarrow> d \<le> d')"

text \<open>The result of \<^verbatim>\<open>dijkstra\<close> in the words of claim C4.\<close>

definition claimedDistances :: "Graph \<Rightarrow> int \<Rightarrow> bool" where
  "claimedDistances g s \<longleftrightarrow>
     (\<forall>t \<in> set (getAllNodeIds g). \<exists>m. dijkstra g s t = Some m)
     \<and> dijkstra g s s = Some 0
     \<and> (\<forall>t m. dijkstra g s t = Some m \<longrightarrow> 0 \<le> m)
     \<and> (\<forall>t \<in> set (getAllNodeIds g). \<not> reachable g s t \<longrightarrow> dijkstra g s t = Some DBL_MAX)
     \<and> (\<forall>t. reachable g s t \<longrightarrow> (\<exists>d. minCost g s t d \<and> dijkstra g s t = Some d))"

text \<open>Location \<open>2\<close> lies behind the id \<open>1\<close>, which no \<^verbatim>\<open>addNode\<close> declares.\<close>

definition gapGraph :: Graph where
  "gapGraph = buildGraph
     [AddNode \<lparr>id_node = 0, demand = 0, priority = 0\<rparr>,
      AddNode \<lparr>id_node = 2, demand = 1, priority = 1\<rparr>,
      AddEdge \<lparr>u_edge = 0, v_edge = 1, cost = 1, reliability = 1\<rparr>,
      AddEdge \<lparr>u_edge = 1, v_edge = 2, cost = 1, reliability = 1\<rparr>]"

text \<open>Two roads in a row, each of cost \<open>2 ^ 1023\<close>: together they cost more than
  \<open>DBL_MAX\<close>.\<close>

definition hugeGraph :: Graph where
  "hugeGraph = buildGraph
     [AddNode \<lparr>id_node = 0, demand = 0, priority = 0\<rparr>,
      AddNode \<lparr>id_node = 1, demand = 1, priority = 1\<rparr>,
      AddNode \<lparr>id_node = 2, demand = 1, priority = 1\<rparr>,
      AddEdge \<lparr>u_edge = 0, v_edge = 1, cost = 2 ^ 1023, reliability = 1\<rparr>,
      AddEdge \<lparr>u_edge = 1, v_edge = 2, cost = 2 ^ 1023, reliability = 1\<rparr>]"

subsection \<open>The nearest feasible vehicle\<close>










subsection \<open>Goal-directed search (algorithms.h, \<^verbatim>\<open>astar\<close>)\<close>

record AstarState =
  gScore :: "int \<rightharpoonup> real"
  fScore :: "int \<rightharpoonup> real"
  cameFrom :: "int \<rightharpoonup> int"
  visitedA :: "int \<rightharpoonup> bool"
  pqA :: "(real \<times> int) list"

text \<open>The heuristic \<^verbatim>\<open>abs(v - target)\<close>, converted to \<^verbatim>\<open>double\<close>.\<close>

definition heuristic :: "int \<Rightarrow> int \<Rightarrow> real" where
  "heuristic v target = real_of_int \<bar>v - target\<bar>"

text \<open>The path reconstruction: the ids from the target back along \<^verbatim>\<open>cameFrom\<close>, until an
  id without an entry sets \<^verbatim>\<open>node\<close> to \<open>-1\<close>.  Nothing in the loop bounds the number of
  rounds.\<close>

partial_function (option) reconstruct :: "(int \<rightharpoonup> int) \<Rightarrow> int \<Rightarrow> int list \<Rightarrow> int list option" where
  "reconstruct came node path =
     (if node = - 1 then Some path
      else reconstruct came (case came node of Some p \<Rightarrow> p | None \<Rightarrow> - 1) (path @ [node]))"

text \<open>The body of the loop over the neighbours of \<open>current\<close>.\<close>

definition astarRelax :: "int \<Rightarrow> int \<Rightarrow> AstarState \<Rightarrow> int \<times> Edge \<Rightarrow> AstarState" where
  "astarRelax target current st neighbor =
     (let v = fst neighbor;
          edgeCost = cost (snd neighbor);
          g1 = touch (gScore st) current 0;
          tentativeGScore = valueAt g1 current 0 + edgeCost;
          g2 = touch g1 v 0
      in if tentativeGScore < valueAt g2 v 0
         then st\<lparr>cameFrom := (cameFrom st)(v \<mapsto> current),
                 gScore := g2(v \<mapsto> tentativeGScore),
                 fScore := (fScore st)(v \<mapsto> tentativeGScore + heuristic v target),
                 pqA := pqA st @ [(tentativeGScore + heuristic v target, v)]\<rparr>
         else st\<lparr>gScore := g2\<rparr>)"

text \<open>One round of the \<^verbatim>\<open>while (!pq.empty())\<close> loop: \<open>Inl\<close> is a \<^verbatim>\<open>return\<close> (with \<open>None\<close>
  when the reconstruction does not end), \<open>Inr\<close> the state for the next round.\<close>

definition astarStep :: "Graph \<Rightarrow> int \<Rightarrow> AstarState \<Rightarrow> int list option + AstarState" where
  "astarStep g target st =
     (case pqTop (pqA st) of
        None \<Rightarrow> Inl (Some [])
      | Some entry \<Rightarrow>
          let current = snd entry;
              st1 = st\<lparr>pqA := remove1 entry (pqA st),
                       visitedA := touch (visitedA st) current False\<rparr>
          in if valueAt (visitedA st) current False then Inr st1
             else
               let st2 = st1\<lparr>visitedA := (visitedA st1)(current \<mapsto> True)\<rparr>
               in if current = target
                  then Inl (map_option rev (reconstruct (cameFrom st2) target []))
                  else Inr (foldl (astarRelax target current) st2 (getNeighbors g current)))"

definition pendingA :: "Graph \<Rightarrow> AstarState \<Rightarrow> int set" where
  "pendingA g st = (neighbourIds g \<union> snd ` set (pqA st)) - visitedSet (visitedA st)"

lemma finite_pendingA: "finite (pendingA g st)"
  by (simp add: pendingA_def finite_neighbourIds)

lemma astarRelax_visited [simp]: "visitedA (astarRelax target current st nb) = visitedA st"
  by (simp add: astarRelax_def Let_def)

lemma astarRelax_queue:
  "snd ` set (pqA (astarRelax target current st nb)) \<subseteq> insert (fst nb) (snd ` set (pqA st))"
  by (auto simp: astarRelax_def Let_def)

lemma foldl_astarRelax_visited [simp]:
  "visitedA (foldl (astarRelax target current) st nbs) = visitedA st"
  by (induction nbs arbitrary: st) simp_all

lemma foldl_astarRelax_queue:
  "snd ` set (pqA (foldl (astarRelax target current) st nbs)) \<subseteq> fst ` set nbs \<union> snd ` set (pqA st)"
proof (induction nbs arbitrary: st)
  case Nil
  show ?case by simp
next
  case (Cons nb nbs)
  from Cons.IH [of "astarRelax target current st nb"] astarRelax_queue [of target current st nb]
  show ?case by auto
qed

lemma astarStep_decreases:
  assumes "astarStep g target st = Inr st'"
  shows "((g, target, st'), (g, target, st))
    \<in> measures [\<lambda>(g, target, st). card (pendingA g st), \<lambda>(g, target, st). length (pqA st)]"
proof -
  from assms obtain tp where tp: "pqTop (pqA st) = Some tp"
    by (cases "pqTop (pqA st)") (auto simp: astarStep_def)
  then have mem: "tp \<in> set (pqA st)" by (rule pqTop_in)
  have rem: "snd ` set (remove1 tp (pqA st)) \<subseteq> snd ` set (pqA st)"
    using set_remove1_subset [of tp "pqA st"] by blast
  show ?thesis
  proof (cases "valueAt (visitedA st) (snd tp) False")
    case True
    with assms tp have st': "st' = st\<lparr>pqA := remove1 tp (pqA st),
        visitedA := touch (visitedA st) (snd tp) False\<rparr>"
      by (simp add: astarStep_def Let_def)
    have "pendingA g st' \<subseteq> pendingA g st"
      unfolding st' using rem by (auto simp: pendingA_def)
    then have "card (pendingA g st') \<le> card (pendingA g st)"
      by (rule card_mono [OF finite_pendingA])
    moreover have "length (pqA st') < length (pqA st)"
      unfolding st' using mem length_pos_if_in_set [OF mem] by (simp add: length_remove1)
    ultimately show ?thesis by auto
  next
    case False
    define st2 where "st2 = st\<lparr>pqA := remove1 tp (pqA st),
        visitedA := (touch (visitedA st) (snd tp) False)(snd tp \<mapsto> True)\<rparr>"
    from False assms tp have st': "st' = foldl (astarRelax target (snd tp)) st2 (getNeighbors g (snd tp))"
      by (auto simp: astarStep_def Let_def st2_def split: if_splits)
    have vis: "visitedSet (visitedA st') = insert (snd tp) (visitedSet (visitedA st))"
      unfolding st' by (auto simp: st2_def visitedSet_def touch_def split: option.splits)
    have "snd ` set (pqA st2) \<subseteq> snd ` set (pqA st)"
      using rem by (simp add: st2_def)
    with foldl_astarRelax_queue [of target "snd tp" st2 "getNeighbors g (snd tp)"]
      getNeighbors_neighbourIds [of g "snd tp"]
    have "snd ` set (pqA st') \<subseteq> neighbourIds g \<union> snd ` set (pqA st)"
      unfolding st' by blast
    with vis have sub: "pendingA g st' \<subseteq> pendingA g st - {snd tp}"
      unfolding pendingA_def by auto
    from False have "snd tp \<notin> visitedSet (visitedA st)"
      by (auto simp: visitedSet_def valueAt_def)
    with mem have "snd tp \<in> pendingA g st" by (auto simp: pendingA_def)
    with sub have "pendingA g st' \<subset> pendingA g st" by blast
    then have "card (pendingA g st') < card (pendingA g st)"
      by (rule psubset_card_mono [OF finite_pendingA])
    then show ?thesis by simp
  qed
qed

function astarLoop :: "Graph \<Rightarrow> int \<Rightarrow> AstarState \<Rightarrow> int list option" where
  "astarLoop g target st =
     (if pqA st = [] then Some []
      else case astarStep g target st of
             Inl result \<Rightarrow> result
           | Inr st' \<Rightarrow> astarLoop g target st')"
  by pat_completeness auto
termination
proof (relation "measures [\<lambda>(g, target, st). card (pendingA g st), \<lambda>(g, target, st). length (pqA st)]")
  show "wf (measures [\<lambda>(g, target, st). card (pendingA g st), \<lambda>(g, target, st). length (pqA st)])"
    by simp
next
  fix g :: Graph and target :: int and st st' :: AstarState
  assume "astarStep g target st = Inr st'"
  then show "((g, target, st'), (g, target, st))
    \<in> measures [\<lambda>(g, target, st). card (pendingA g st), \<lambda>(g, target, st). length (pqA st)]"
    by (rule astarStep_decreases)
qed

declare astarLoop.simps [simp del]

definition astarInit :: "Graph \<Rightarrow> int \<Rightarrow> int \<Rightarrow> AstarState" where
  "astarInit g source target =
     (let ids = getAllNodeIds g;
          g0 = foldl (\<lambda>m nodeId. m(nodeId \<mapsto> DBL_MAX)) Map.empty ids;
          f0 = foldl (\<lambda>m nodeId. m(nodeId \<mapsto> DBL_MAX)) Map.empty ids;
          visited0 = foldl (\<lambda>m nodeId. m(nodeId \<mapsto> False)) Map.empty ids
      in \<lparr>gScore = g0(source \<mapsto> 0),
          fScore = f0(source \<mapsto> heuristic source target),
          cameFrom = Map.empty,
          visitedA = visited0,
          pqA = [(heuristic source target, source)]\<rparr>)"

definition astar :: "Graph \<Rightarrow> int \<Rightarrow> int \<Rightarrow> int list option" where
  "astar g source target = astarLoop g target (astarInit g source target)"

text \<open>Two locations without a road between them.\<close>

definition apartGraph :: Graph where
  "apartGraph = buildGraph
     [AddNode \<lparr>id_node = 0, demand = 0, priority = 0\<rparr>,
      AddNode \<lparr>id_node = 1, demand = 1, priority = 1\<rparr>]"

text \<open>From \<open>2\<close> to \<open>0\<close> the route \<open>2, 22, 1, 0\<close> costs 24 and the road \<open>2, 0\<close> costs 25.\<close>

definition detourGraph :: Graph where
  "detourGraph = buildGraph
     [AddNode \<lparr>id_node = 0, demand = 0, priority = 0\<rparr>,
      AddNode \<lparr>id_node = 1, demand = 1, priority = 1\<rparr>,
      AddNode \<lparr>id_node = 2, demand = 1, priority = 1\<rparr>,
      AddNode \<lparr>id_node = 22, demand = 1, priority = 1\<rparr>,
      AddEdge \<lparr>u_edge = 2, v_edge = 22, cost = 2, reliability = 1\<rparr>,
      AddEdge \<lparr>u_edge = 22, v_edge = 1, cost = 2, reliability = 1\<rparr>,
      AddEdge \<lparr>u_edge = 2, v_edge = 1, cost = 6, reliability = 1\<rparr>,
      AddEdge \<lparr>u_edge = 1, v_edge = 0, cost = 20, reliability = 1\<rparr>,
      AddEdge \<lparr>u_edge = 2, v_edge = 0, cost = 25, reliability = 1\<rparr>]"

text \<open>The heuristic never overestimates the cost that remains to the target.\<close>

definition admissibleHeuristic :: "Graph \<Rightarrow> int \<Rightarrow> bool" where
  "admissibleHeuristic g target \<longleftrightarrow> (\<forall>v d. walk g v target d \<longrightarrow> heuristic v target \<le> d)"

text \<open>The heuristic is consistent: along every adjacency entry it falls by no more than
  the cost of the entry.\<close>

definition consistentHeuristic :: "Graph \<Rightarrow> int \<Rightarrow> bool" where
  "consistentHeuristic g target \<longleftrightarrow>
     (\<forall>entry \<in> set (adjacencyList g). \<forall>neighbor \<in> set (snd entry).
        heuristic (fst entry) target \<le> cost (snd neighbor) + heuristic (fst neighbor) target)"

text \<open>Between any two ids the road that a lookup finds is a cheapest one.\<close>

definition cheapestFirst :: "Graph \<Rightarrow> bool" where
  "cheapestFirst g \<longleftrightarrow>
     (\<forall>entry \<in> set (adjacencyList g). \<forall>neighbor \<in> set (snd entry).
        getEdgeCost g (fst entry) (fst neighbor) \<le> cost (snd neighbor))"

text \<open>\<open>treePath g s done came gs v path d\<close>: following \<open>came\<close> back from \<open>v\<close> leads through
  visited ids to the source \<open>s\<close>; \<open>path\<close> lists the ids from \<open>s\<close> to \<open>v\<close>, every step
  is an adjacency entry, and the scores \<open>gs\<close> add up the costs of the entries to \<open>d\<close>.\<close>

inductive treePath ::
  "Graph \<Rightarrow> int \<Rightarrow> int set \<Rightarrow> (int \<rightharpoonup> int) \<Rightarrow> (int \<rightharpoonup> real) \<Rightarrow> int \<Rightarrow> int list \<Rightarrow> real \<Rightarrow> bool"
  for g :: Graph and s :: int and A :: "int set" and came :: "int \<rightharpoonup> int" and gs :: "int \<rightharpoonup> real" where
  root: "came s = None \<Longrightarrow> gs s = Some 0 \<Longrightarrow> treePath g s A came gs s [s] 0"
| child: "treePath g s A came gs p path dp \<Longrightarrow> p \<in> A \<Longrightarrow> came v = Some p \<Longrightarrow>
    (v, e) \<in> set (getNeighbors g p) \<Longrightarrow> gs v = Some (dp + cost e) \<Longrightarrow>
    treePath g s A came gs v (path @ [v]) (dp + cost e)"

text \<open>The invariant of the loop of \<^verbatim>\<open>astar\<close> from \<open>s\<close> to \<open>t\<close>, while the target has not
  been visited.\<close>

definition astarInv ::
  "Graph \<Rightarrow> int \<Rightarrow> int \<Rightarrow> (int \<times> int \<times> Edge) set \<Rightarrow> AstarState \<Rightarrow> bool" where
  "astarInv g s t todo st \<longleftrightarrow>
     dom (gScore st) = set (getAllNodeIds g) \<union> {s}
     \<and> (\<forall>v d. gScore st v = Some d \<longrightarrow> 0 \<le> d \<and> d \<le> DBL_MAX
           \<and> (d < DBL_MAX \<longrightarrow>
                (\<exists>path. treePath g s (visitedSet (visitedA st)) (cameFrom st) (gScore st) v path d)))
     \<and> (\<forall>entry \<in> set (pqA st). \<exists>d. gScore st (snd entry) = Some d \<and> d < DBL_MAX
           \<and> d + heuristic (snd entry) t \<le> fst entry)
     \<and> (\<forall>v d. v \<notin> visitedSet (visitedA st) \<and> gScore st v = Some d \<and> d < DBL_MAX \<longrightarrow>
           (d + heuristic v t, v) \<in> set (pqA st))
     \<and> (\<forall>u \<in> visitedSet (visitedA st). \<exists>du. gScore st u = Some du \<and> du < DBL_MAX
           \<and> (\<forall>d. walk g s u d \<longrightarrow> du \<le> d)
           \<and> (\<forall>neighbor \<in> set (getNeighbors g u). (u, neighbor) \<notin> todo \<longrightarrow>
                 (\<exists>dv. gScore st (fst neighbor) = Some dv \<and> dv \<le> du + cost (snd neighbor))))
     \<and> (s \<in> visitedSet (visitedA st)
         \<or> (visitedSet (visitedA st) = {} \<and> pqA st = [(heuristic s t, s)] \<and> gScore st s = Some 0))
     \<and> t \<notin> visitedSet (visitedA st)"

text \<open>Every id of the path has an adjacency entry that names the id after it.\<close>

definition roadsExist :: "Graph \<Rightarrow> int list \<Rightarrow> bool" where
  "roadsExist g path \<longleftrightarrow>
     list_all (\<lambda>(a, b). b \<in> fst ` set (getNeighbors g a)) (zip path (tl path))"

text \<open>A path that \<^verbatim>\<open>astar\<close> may return for a reachable target: it leads from \<open>s\<close> to \<open>t\<close>
  along roads of the graph, and the total of its looked-up costs is the minimum cost from
  \<open>s\<close> to \<open>t\<close>.\<close>

definition optimalPath :: "Graph \<Rightarrow> int \<Rightarrow> int \<Rightarrow> int list \<Rightarrow> bool" where
  "optimalPath g s t path \<longleftrightarrow>
     path \<noteq> [] \<and> hd path = s \<and> last path = t \<and> roadsExist g path
     \<and> minCost g s t (edgeCostSum g path)"

text \<open>The result of \<^verbatim>\<open>astar\<close> in the words of claim C8: the total edge cost of the path
  that is returned is the distance that \<^verbatim>\<open>dijkstra\<close> reports for the target.\<close>

definition claimedAstar :: "Graph \<Rightarrow> int \<Rightarrow> int \<Rightarrow> bool" where
  "claimedAstar g s t \<longleftrightarrow>
     (\<exists>path. astar g s t = Some path \<and> dijkstra g s t = Some (edgeCostSum g path))"

text \<open>In \<open>detourGraph\<close> the cost of a walk is at least the difference of the distances of
  its ends from the target \<open>0\<close>.\<close>

definition detourLevel :: "int \<Rightarrow> real" where
  "detourLevel v = (if v = 1 then 20 else if v = 2 then 24 else if v = 22 then 22 else 0)"

section \<open>Graph lookups\<close>

lemma getNeighbors_addNode [simp]: "getNeighbors (addNode n g) k = getNeighbors g k"
  by (auto simp: getNeighbors_def addNode_def update_conv' split: option.splits)



text \<open>The edges that a lookup from \<open>a\<close> to \<open>b\<close> can see, in scan order.\<close>

definition matching :: "Graph \<Rightarrow> int \<Rightarrow> int \<Rightarrow> Edge list" where
  "matching g a b = map snd (filter (\<lambda>neighbor. fst neighbor = b) (getNeighbors g a))"

lemma find_as_filter:
  "List.find P xs = (case filter P xs of [] \<Rightarrow> None | x # _ \<Rightarrow> Some x)"
  by (induction xs) auto

lemma getEdgeCost_matching:
  "getEdgeCost g a b = (case matching g a b of [] \<Rightarrow> - 1 | e # _ \<Rightarrow> cost e)"
  by (simp add: getEdgeCost_def matching_def find_as_filter split: list.splits)










section \<open>Cost model\<close>

lemma routeCostLoop_spec:
  "routeCostLoop g rt (t, r) =
     (t + sum_list (map (\<lambda>(a, b). getEdgeCost g a b) (traversedPairs g rt)),
      r * prod_list (map (\<lambda>(a, b). getEdgeReliability g a b) (traversedPairs g rt)))"
proof (induction g rt "(t, r)" arbitrary: t r rule: routeCostLoop.induct)
  case (1 g a b rest t r)
  show ?case
  proof (cases "getEdgeCost g a b < 0")
    case True
    with "1.hyps" [of "getEdgeCost g a b" "getEdgeReliability g a b" t r]
    show ?thesis by (simp add: traversedPairs_def)
  next
    case False
    with "1.hyps" [of "getEdgeCost g a b" "getEdgeReliability g a b"
        "t + getEdgeCost g a b" "r * getEdgeReliability g a b"]
    show ?thesis by (simp add: traversedPairs_def algebra_simps)
  qed
qed (simp_all add: traversedPairs_def)

lemma traversedPairs_no_edges:
  assumes "\<forall>p \<in> set (zip rt (tl rt)). matching g (fst p) (snd p) = []"
  shows "traversedPairs g rt = []"
  using assms by (auto simp: traversedPairs_def filter_empty_conv getEdgeCost_matching)

text \<open>
  Claim C7.  \<^verbatim>\<open>calculateRouteCost\<close> returns all zeros for a route of fewer than two
  nodes.  Otherwise \<open>totalTime\<close> is the sum of the looked-up costs over the consecutive
  pairs whose lookup is not negative, \<open>reliabilityPenalty\<close> is one minus the product of
  the looked-up reliabilities over exactly those pairs, \<open>idleTime\<close> is capacity minus
  load, and \<open>finalScore\<close> is \<open>0.6 * totalTime + 0.3 * reliabilityPenalty + 0.1 * idleTime\<close>.
  A route of at least two nodes in which no consecutive pair has a direct edge has
  penalty and total time \<open>0\<close>.
\<close>

theorem C7_calculateRouteCost:
  "calculateRouteCost g rt cap load =
     (if length rt < 2
      then \<lparr>totalTime = 0, reliabilityPenalty = 0, idleTime = 0, finalScore = 0\<rparr>
      else \<lparr>totalTime = specTotalTime g rt,
            reliabilityPenalty = specReliabilityPenalty g rt,
            idleTime = real_of_int (cap - load),
            finalScore = 6 / 10 * specTotalTime g rt + 3 / 10 * specReliabilityPenalty g rt
              + 1 / 10 * real_of_int (cap - load)\<rparr>)
   \<and> ((\<forall>p \<in> set (zip rt (tl rt)). matching g (fst p) (snd p) = []) \<longrightarrow>
        reliabilityPenalty (calculateRouteCost g rt cap load) = 0
        \<and> totalTime (calculateRouteCost g rt cap load) = 0)"
proof (intro conjI impI)
  show eq: "calculateRouteCost g rt cap load =
     (if length rt < 2
      then \<lparr>totalTime = 0, reliabilityPenalty = 0, idleTime = 0, finalScore = 0\<rparr>
      else \<lparr>totalTime = specTotalTime g rt,
            reliabilityPenalty = specReliabilityPenalty g rt,
            idleTime = real_of_int (cap - load),
            finalScore = 6 / 10 * specTotalTime g rt + 3 / 10 * specReliabilityPenalty g rt
              + 1 / 10 * real_of_int (cap - load)\<rparr>)"
    by (simp add: calculateRouteCost_def routeCostLoop_spec specTotalTime_def
        specReliabilityPenalty_def ALPHA_def BETA_def GAMMA_def Let_def)
  assume none: "\<forall>p \<in> set (zip rt (tl rt)). matching g (fst p) (snd p) = []"
  have empty: "traversedPairs g rt = []"
    using none by (rule traversedPairs_no_edges)
  show "reliabilityPenalty (calculateRouteCost g rt cap load) = 0"
    by (simp add: eq specReliabilityPenalty_def empty)
  show "totalTime (calculateRouteCost g rt cap load) = 0"
    by (simp add: eq specTotalTime_def empty)
qed

theorem C7_calculateRouteCost_witness:
  "calculateRouteCost scenarioGraph [0, 2, 1, 0] 10 10 =
     \<lparr>totalTime = 6, reliabilityPenalty = 1 / 10, idleTime = 0, finalScore = 363 / 100\<rparr>
   \<and> calculateRouteCost scenarioGraph [0] 10 3 =
     \<lparr>totalTime = 0, reliabilityPenalty = 0, idleTime = 0, finalScore = 0\<rparr>
   \<and> reliabilityPenalty (calculateRouteCost scenarioGraph [0, 7] 10 3) = 0"
  using C7_calculateRouteCost [of scenarioGraph "[0, 2, 1, 0]" 10 10]
    C7_calculateRouteCost [of scenarioGraph "[0]" 10 3]
    C7_calculateRouteCost [of scenarioGraph "[0, 7]" 10 3]
  by (simp add: specTotalTime_def specReliabilityPenalty_def traversedPairs_def matching_def
      getEdgeCost_def getEdgeReliability_def getNeighbors_def
      scenarioGraph_def buildGraph_def emptyGraph_def addNode_def addEdge_def pushAdj_def)

section \<open>Route optimiser\<close>


lemma routeCostValid_Some:
  "routeCostValid g r acc = Some c \<Longrightarrow> c = acc + edgeCostSum g r"
  by (induction g r acc rule: routeCostValid.induct)
     (auto simp: edgeCostSum_def Let_def split: if_splits)

lemma routeCostValid_None:
  "routeCostValid g r acc = None \<longleftrightarrow> (\<exists>p \<in> set (zip r (tl r)). getEdgeCost g (fst p) (snd p) < 0)"
  by (induction g r acc rule: routeCostValid.induct) (auto simp: Let_def)

lemma mset_reverseSegment:
  assumes "i \<le> j + 1"
  shows "mset (reverseSegment i j xs) = mset xs"
proof -
  have "drop (j + 1) xs = drop (j + 1 - i) (drop i xs)"
    using assms by simp
  then have "mset (reverseSegment i j xs)
      = mset (take i xs) + mset (take (j + 1 - i) (drop i xs) @ drop (j + 1 - i) (drop i xs))"
    unfolding reverseSegment_def by simp
  also have "\<dots> = mset (take i xs) + mset (drop i xs)"
    by (simp only: append_take_drop_id)
  also have "\<dots> = mset xs"
    by (metis append_take_drop_id mset_append)
  finally show ?thesis .
qed

lemma hd_reverseSegment:
  assumes "0 < i" "xs \<noteq> []"
  shows "hd (reverseSegment i j xs) = hd xs"
  using assms by (cases xs) (auto simp: reverseSegment_def take_Cons')

lemma last_reverseSegment:
  assumes "j + 1 < length xs"
  shows "last (reverseSegment i j xs) = last xs"
  using assms by (simp add: reverseSegment_def)

lemma tryReverse_improves:
  assumes "tryReverse g r i j = Some r'" "0 < i" "i \<le> j" "j + 1 < length r"
  shows "improves g r r'"
proof -
  from assms(1) obtain c c' where
    c: "routeCostValid g r 0 = Some c" and
    r': "r' = reverseSegment i j r" and
    c': "routeCostValid g r' 0 = Some c'" and less: "c' < c"
    by (auto simp: tryReverse_def Let_def split: option.splits if_splits)
  from assms have ne: "r \<noteq> []" by auto
  show ?thesis
    unfolding improves_def using c c' less assms(2-4) ne
    by (auto simp: r' mset_reverseSegment hd_reverseSegment last_reverseSegment)
qed

lemma scanJ_Some:
  "scanJ g r i j = Some r' \<Longrightarrow> \<exists>j'. j \<le> j' \<and> j' + 1 < length r \<and> tryReverse g r i j' = Some r'"
proof (induction g r i j rule: scanJ.induct)
  case (1 g r i j)
  show ?case
  proof (cases "tryReverse g r i j")
    case None
    with "1.prems" have lt: "j < length r - 1" and rec: "scanJ g r i (j + 1) = Some r'"
      by (auto split: if_splits)
    from "1.IH" [OF lt None rec] show ?thesis by (metis Suc_eq_plus1 Suc_leD)
  next
    case (Some a)
    with "1.prems" show ?thesis by (auto split: if_splits intro!: exI [of _ j])
  qed
qed

lemma scanI_Some:
  "scanI g r i = Some r' \<Longrightarrow>
     \<exists>i' j'. i \<le> i' \<and> i' < j' \<and> j' + 1 < length r \<and> tryReverse g r i' j' = Some r'"
proof (induction g r i rule: scanI.induct)
  case (1 g r i)
  show ?case
  proof (cases "scanJ g r i (i + 1)")
    case None
    with "1.prems" have lt: "i < length r - 2" and rec: "scanI g r (i + 1) = Some r'"
      by (auto split: if_splits)
    from "1.IH" [OF lt None rec] show ?thesis by (metis Suc_eq_plus1 Suc_leD)
  next
    case (Some a)
    with "1.prems" have "scanJ g r i (i + 1) = Some r'" by (auto split: if_splits)
    from scanJ_Some [OF this] show ?thesis by (metis Suc_eq_plus1 Suc_le_lessD order_refl)
  qed
qed

lemma scanI_improves:
  assumes "scanI g r 1 = Some r'"
  shows "improves g r r'"
proof -
  from scanI_Some [OF assms] obtain i j where
    "1 \<le> i" "i < j" "j + 1 < length r" "tryReverse g r i j = Some r'" by blast
  then show ?thesis by (intro tryReverse_improves [of g r i j]) auto
qed

lemma finite_cheaper: "finite (cheaper g r)"
proof -
  have "cheaper g r \<subseteq> {r'. set r' \<subseteq> set r \<and> length r' = length r}"
    by (auto simp: cheaper_def dest: mset_eq_setD mset_eq_length)
  then show ?thesis
    by (rule finite_subset) (simp add: finite_lists_length_eq)
qed

lemma cheaper_decreases:
  assumes "improves g r r'"
  shows "card (cheaper g r') < card (cheaper g r)"
proof (rule psubset_card_mono [OF finite_cheaper])
  from assms have "r' \<in> cheaper g r" "r' \<notin> cheaper g r'"
    by (auto simp: improves_def cheaper_def)
  moreover from assms have "cheaper g r' \<subseteq> cheaper g r"
    by (auto simp: improves_def cheaper_def)
  ultimately show "cheaper g r' \<subset> cheaper g r" by blast
qed

lemma twoOptLoop_total:
  "\<exists>out. twoOptLoop g r = Some out \<and> scanI g out 1 = None
     \<and> mset out = mset r \<and> hd out = hd r \<and> last out = last r
     \<and> (\<forall>c. routeCostValid g r 0 = Some c \<longrightarrow>
            (\<exists>c'. routeCostValid g out 0 = Some c' \<and> c' \<le> c))
     \<and> (routeCostValid g r 0 = None \<longrightarrow> out = r)"
proof (induction "card (cheaper g r)" arbitrary: r rule: less_induct)
  case less
  show ?case
  proof (cases "scanI g r 1")
    case None
    then have "twoOptLoop g r = Some r" by (simp add: twoOptLoop.simps)
    with None show ?thesis by auto
  next
    case (Some r1)
    then have imp: "improves g r r1" by (rule scanI_improves)
    from less [OF cheaper_decreases [OF imp]] obtain out where
      out: "twoOptLoop g r1 = Some out" "scanI g out 1 = None"
        "mset out = mset r1" "hd out = hd r1" "last out = last r1"
        "\<forall>c. routeCostValid g r1 0 = Some c \<longrightarrow>
            (\<exists>c'. routeCostValid g out 0 = Some c' \<and> c' \<le> c)"
      by blast
    from Some out(1) have "twoOptLoop g r = Some out" by (simp add: twoOptLoop.simps)
    moreover from imp out have "mset out = mset r" "hd out = hd r" "last out = last r"
      by (auto simp: improves_def)
    moreover from imp out(6) have "\<forall>c. routeCostValid g r 0 = Some c \<longrightarrow>
            (\<exists>c'. routeCostValid g out 0 = Some c' \<and> c' \<le> c)"
      by (fastforce simp: improves_def)
    moreover from imp have "routeCostValid g r 0 \<noteq> None" by (auto simp: improves_def)
    ultimately show ?thesis using out(2) by auto
  qed
qed

lemma twoOpt_total:
  "\<exists>out. twoOpt g rt = Some out
     \<and> mset out = mset rt \<and> hd out = hd rt \<and> last out = last rt
     \<and> (\<forall>c. routeCostValid g rt 0 = Some c \<longrightarrow>
            (\<exists>c'. routeCostValid g out 0 = Some c' \<and> c' \<le> c))
     \<and> (routeCostValid g rt 0 = None \<longrightarrow> out = rt)
     \<and> (length rt \<le> 3 \<longrightarrow> out = rt)"
proof (cases "length rt \<le> 3")
  case True
  then have "twoOpt g rt = Some rt" by (simp add: twoOpt_def)
  then show ?thesis by auto
next
  case False
  then have "twoOpt g rt = twoOptLoop g rt" by (simp add: twoOpt_def)
  with twoOptLoop_total [of g rt] False show ?thesis by auto
qed

text \<open>
  Claim C1.  For every graph and every route, \<^verbatim>\<open>twoOpt\<close> returns a route \<open>out\<close> that has
  the same elements as the input with the same multiplicities, the same first and the
  same last element, and a total of looked-up edge costs that is not greater than the
  input's.  When every lookup along the input is non-negative (its cost is
  computable), so is every lookup along the output, and the computed cost of the
  output is at most the computed cost of the input.  A route of at most three nodes is
  returned unchanged.
\<close>

theorem C1_twoOpt_permutation_cost:
  "\<exists>out. twoOpt g rt = Some out
     \<and> mset out = mset rt \<and> hd out = hd rt \<and> last out = last rt
     \<and> edgeCostSum g out \<le> edgeCostSum g rt
     \<and> (\<forall>c. routeCostValid g rt 0 = Some c \<longrightarrow>
            (\<exists>c'. routeCostValid g out 0 = Some c' \<and> c' \<le> c))
     \<and> (length rt \<le> 3 \<longrightarrow> out = rt)"
proof -
  from twoOpt_total [of g rt] obtain out where
    out: "twoOpt g rt = Some out" "mset out = mset rt" "hd out = hd rt" "last out = last rt"
      "\<forall>c. routeCostValid g rt 0 = Some c \<longrightarrow>
            (\<exists>c'. routeCostValid g out 0 = Some c' \<and> c' \<le> c)"
      "routeCostValid g rt 0 = None \<longrightarrow> out = rt"
      "length rt \<le> 3 \<longrightarrow> out = rt"
    by (elim exE conjE)
  have "edgeCostSum g out \<le> edgeCostSum g rt"
  proof (cases "routeCostValid g rt 0")
    case None
    with out(6) show ?thesis by simp
  next
    case (Some c)
    with out(5) obtain c' where c': "routeCostValid g out 0 = Some c'" "c' \<le> c" by blast
    from routeCostValid_Some [OF Some] routeCostValid_Some [OF c'(1)] c'(2)
    show ?thesis by simp
  qed
  with out show ?thesis by blast
qed

theorem C1_twoOpt_permutation_cost_witness:
  "twoOpt bowtieGraph [0, 2, 1, 3, 0] = Some [0, 1, 2, 3, 0]
   \<and> edgeCostSum bowtieGraph [0, 1, 2, 3, 0] = 4
   \<and> edgeCostSum bowtieGraph [0, 2, 1, 3, 0] = 6
   \<and> twoOpt bowtieGraph [0, 2, 0] = Some [0, 2, 0]"
  using C1_twoOpt_permutation_cost [of bowtieGraph "[0, 2, 1, 3, 0]"]
    C1_twoOpt_permutation_cost [of bowtieGraph "[0, 2, 0]"]
  by (simp add: twoOpt_def twoOptLoop.simps tryReverse_def reverseSegment_def edgeCostSum_def
      getEdgeCost_def getNeighbors_def
      bowtieGraph_def buildGraph_def emptyGraph_def addNode_def addEdge_def pushAdj_def)

text \<open>
  Claim C9.  For every graph and every route, \<^verbatim>\<open>twoOpt\<close> terminates: the loop returns a
  route, at which a full scan accepts no reversal.  The reason is the one the
  specification gives: every reversal that a scan accepts leads from a valid route to
  a valid rearrangement of it that is strictly cheaper, and a route has finitely many
  rearrangements.
\<close>

theorem C9_twoOpt_terminates:
  "(\<exists>out. twoOpt g rt = Some out \<and> (3 < length rt \<longrightarrow> scanI g out 1 = None))
   \<and> (\<forall>r r'. scanI g r 1 = Some r' \<longrightarrow>
         mset r' = mset r
         \<and> (\<exists>c c'. routeCostValid g r 0 = Some c \<and> routeCostValid g r' 0 = Some c' \<and> c' < c))
   \<and> finite {r. mset r = mset rt}"
proof (intro conjI allI impI)
  show "\<exists>out. twoOpt g rt = Some out \<and> (3 < length rt \<longrightarrow> scanI g out 1 = None)"
    using twoOptLoop_total [of g rt] by (auto simp: twoOpt_def)
  show "finite {r. mset r = mset rt}"
  proof (rule finite_subset)
    show "{r. mset r = mset rt} \<subseteq> {r. set r \<subseteq> set rt \<and> length r = length rt}"
      by (auto dest: mset_eq_setD mset_eq_length)
    show "finite {r. set r \<subseteq> set rt \<and> length r = length rt}"
      by (simp add: finite_lists_length_eq)
  qed
next
  fix r r'
  assume "scanI g r 1 = Some r'"
  then have imp: "improves g r r'" by (rule scanI_improves)
  from imp show "mset r' = mset r" by (simp add: improves_def)
  from imp show "\<exists>c c'. routeCostValid g r 0 = Some c \<and> routeCostValid g r' 0 = Some c' \<and> c' < c"
    by (simp add: improves_def)
qed

theorem C9_twoOpt_terminates_witness:
  "twoOpt bowtieGraph [0, 2, 1, 3, 0] = Some [0, 1, 2, 3, 0]
   \<and> scanI bowtieGraph [0, 2, 1, 3, 0] 1 = Some [0, 1, 2, 3, 0]
   \<and> routeCostValid bowtieGraph [0, 2, 1, 3, 0] 0 = Some 6
   \<and> routeCostValid bowtieGraph [0, 1, 2, 3, 0] 0 = Some 4
   \<and> scanI bowtieGraph [0, 1, 2, 3, 0] 1 = None"
  using C9_twoOpt_terminates [of bowtieGraph "[0, 2, 1, 3, 0]"]
  by (simp add: twoOpt_def twoOptLoop.simps tryReverse_def reverseSegment_def
      getEdgeCost_def getNeighbors_def
      bowtieGraph_def buildGraph_def emptyGraph_def addNode_def addEdge_def pushAdj_def)

section \<open>Evaluation helpers\<close>

lemmas graph_eval = buildGraph_def emptyGraph_def addNode_def addEdge_def pushAdj_def
  getNeighbors_def getNode_def getAllNodeIds_def

lemma DBL_MAX_ge: "2 ^ 1023 \<le> DBL_MAX"
proof -
  have "(1::real) \<le> 2 - 1 / 2 ^ 52" by simp
  then have "1 * 2 ^ 1023 \<le> (2 - 1 / 2 ^ 52) * (2::real) ^ 1023"
    by (intro mult_right_mono) simp_all
  then show ?thesis by (simp add: DBL_MAX_def)
qed

lemma below_DBL_MAX: "x < 2 ^ 1023 \<Longrightarrow> x < DBL_MAX"
  using DBL_MAX_ge by linarith

lemmas dijkstra_eval = dijkstra_def dijkstraInit_def dijkstraLoop.simps Let_def touch_def
  valueAt_def pairLess_def below_DBL_MAX

lemma chooseVehicle_total:
  assumes "\<forall>v \<in> set vs. route v \<noteq> []"
  shows "\<exists>res. chooseVehicle g node nodeId vs i acc = Inr res"
  using assms
proof (induction vs arbitrary: i acc)
  case Nil
  show ?case by simp
next
  case (Cons v vs)
  obtain b m where acc: "acc = (b, m)" by (cases acc)
  from Cons.prems have "route v \<noteq> []" "\<forall>v \<in> set vs. route v \<noteq> []" by auto
  with Cons.IH show ?case unfolding acc by (simp add: Let_def)
qed

text \<open>What the loop over the vehicles returns, started at index \<open>i\<close> with the accumulator
  \<open>(b0, m0)\<close>: either nothing in the list beats \<open>m0\<close>, or the result is the first
  vehicle of least cost among the candidates of the list.\<close>

lemma chooseVehicle_spec:
  assumes "chooseVehicle g node nodeId vs i (b0, m0) = Inr (b, m)"
  shows "(b = b0 \<and> m = m0 \<and> (\<forall>v \<in> set vs. candidate g node nodeId v \<longrightarrow> m0 \<le> extraCostOf g v nodeId))
    \<or> (\<exists>k < length vs. b = Some (i + k) \<and> m = extraCostOf g (vs ! k) nodeId \<and> m < m0
          \<and> candidate g node nodeId (vs ! k)
          \<and> (\<forall>j < length vs. candidate g node nodeId (vs ! j) \<longrightarrow> m \<le> extraCostOf g (vs ! j) nodeId)
          \<and> (\<forall>j < k. candidate g node nodeId (vs ! j) \<longrightarrow> m < extraCostOf g (vs ! j) nodeId))"
  using assms
proof (induction vs arbitrary: i b0 m0)
  case Nil
  then show ?case by simp
next
  case (Cons v vs)
  let ?c = "extraCostOf g v nodeId"
  show ?case
  proof (cases "candidate g node nodeId v \<and> ?c < m0")
    case True
    with Cons.prems have ne: "route v \<noteq> []"
      and rec: "chooseVehicle g node nodeId vs (i + 1) (Some i, ?c) = Inr (b, m)"
      by (auto simp: candidate_def Let_def split: if_splits)
    from Cons.IH [OF rec] show ?thesis
    proof (elim disjE exE conjE)
      assume same: "b = Some i" "m = ?c"
        and rest: "\<forall>w \<in> set vs. candidate g node nodeId w \<longrightarrow> ?c \<le> extraCostOf g w nodeId"
      have "\<forall>j < length (v # vs). candidate g node nodeId ((v # vs) ! j) \<longrightarrow>
              m \<le> extraCostOf g ((v # vs) ! j) nodeId"
        using rest same by (auto simp: nth_Cons split: nat.splits)
      with same True show ?thesis by (intro disjI2 exI [of _ 0]) auto
    next
      fix k
      assume k: "k < length vs" "b = Some (i + 1 + k)" "m = extraCostOf g (vs ! k) nodeId" "m < ?c"
        "candidate g node nodeId (vs ! k)"
        "\<forall>j < length vs. candidate g node nodeId (vs ! j) \<longrightarrow> m \<le> extraCostOf g (vs ! j) nodeId"
        "\<forall>j < k. candidate g node nodeId (vs ! j) \<longrightarrow> m < extraCostOf g (vs ! j) nodeId"
      have all: "\<forall>j < length (v # vs). candidate g node nodeId ((v # vs) ! j) \<longrightarrow>
              m \<le> extraCostOf g ((v # vs) ! j) nodeId"
        using k(4,6) by (auto simp: nth_Cons split: nat.splits)
      have before: "\<forall>j < Suc k. candidate g node nodeId ((v # vs) ! j) \<longrightarrow>
              m < extraCostOf g ((v # vs) ! j) nodeId"
        using k(4,7) by (auto simp: nth_Cons split: nat.splits)
      from k True all before show ?thesis
        by (intro disjI2 exI [of _ "Suc k"]) auto
    qed
  next
    case False
    with Cons.prems have rec: "chooseVehicle g node nodeId vs (i + 1) (b0, m0) = Inr (b, m)"
      by (auto simp: candidate_def Let_def split: if_splits)
    from False have here: "candidate g node nodeId v \<longrightarrow> m0 \<le> ?c" by auto
    from Cons.IH [OF rec] show ?thesis
    proof (elim disjE exE conjE)
      assume "b = b0" "m = m0"
        "\<forall>w \<in> set vs. candidate g node nodeId w \<longrightarrow> m0 \<le> extraCostOf g w nodeId"
      with here show ?thesis by auto
    next
      fix k
      assume k: "k < length vs" "b = Some (i + 1 + k)" "m = extraCostOf g (vs ! k) nodeId" "m < m0"
        "candidate g node nodeId (vs ! k)"
        "\<forall>j < length vs. candidate g node nodeId (vs ! j) \<longrightarrow> m \<le> extraCostOf g (vs ! j) nodeId"
        "\<forall>j < k. candidate g node nodeId (vs ! j) \<longrightarrow> m < extraCostOf g (vs ! j) nodeId"
      have all: "\<forall>j < length (v # vs). candidate g node nodeId ((v # vs) ! j) \<longrightarrow>
              m \<le> extraCostOf g ((v # vs) ! j) nodeId"
        using k(4,6) here by (auto simp: nth_Cons split: nat.splits)
      have before: "\<forall>j < Suc k. candidate g node nodeId ((v # vs) ! j) \<longrightarrow>
              m < extraCostOf g ((v # vs) ! j) nodeId"
        using k(4,7) here by (auto simp: nth_Cons split: nat.splits)
      from k all before show ?thesis
        by (intro disjI2 exI [of _ "Suc k"]) auto
    qed
  qed
qed

lemma chooseVehicle_start:
  assumes "chooseVehicle g node nodeId vs 0 (None, DBL_MAX) = Inr (b, m)"
  shows "(b = None \<and> (\<forall>v \<in> set vs. \<not> candidate g node nodeId v))
    \<or> (\<exists>k < length vs. b = Some k
          \<and> candidate g node nodeId (vs ! k)
          \<and> (\<forall>j < length vs. candidate g node nodeId (vs ! j) \<longrightarrow>
                extraCostOf g (vs ! k) nodeId \<le> extraCostOf g (vs ! j) nodeId)
          \<and> (\<forall>j < k. candidate g node nodeId (vs ! j) \<longrightarrow>
                extraCostOf g (vs ! k) nodeId < extraCostOf g (vs ! j) nodeId))"
  using chooseVehicle_spec [OF assms]
proof (elim disjE exE conjE)
  assume "b = None"
    and "\<forall>v \<in> set vs. candidate g node nodeId v \<longrightarrow> DBL_MAX \<le> extraCostOf g v nodeId"
  then show ?thesis by (fastforce simp: candidate_def)
next
  fix k
  assume "k < length vs" "b = Some (0 + k)" "m = extraCostOf g (vs ! k) nodeId"
    "candidate g node nodeId (vs ! k)"
    "\<forall>j < length vs. candidate g node nodeId (vs ! j) \<longrightarrow> m \<le> extraCostOf g (vs ! j) nodeId"
    "\<forall>j < k. candidate g node nodeId (vs ! j) \<longrightarrow> m < extraCostOf g (vs ! j) nodeId"
  then show ?thesis by (intro disjI2 exI [of _ k]) simp
qed

lemma assignNode_cases:
  assumes "assignNode g vs nodeId = Inr vs'"
  shows "vs' = vs
    \<or> (\<exists>node k. getNode g nodeId = Some node \<and> k < length vs \<and> canServe (vs ! k) (demand node)
          \<and> vs' = vs[k := addNode_vehicle (vs ! k) nodeId (demand node)])"
proof (cases "getNode g nodeId")
  case None
  with assms show ?thesis by (simp add: assignNode_def)
next
  case (Some node)
  with assms obtain b m where
    ch: "chooseVehicle g node nodeId vs 0 (None, DBL_MAX) = Inr (b, m)"
    by (auto simp: assignNode_def split: sum.splits)
  show ?thesis
  proof (cases b)
    case None
    with assms Some ch show ?thesis by (simp add: assignNode_def)
  next
    case (Some k)
    with chooseVehicle_start [OF ch] have "k < length vs" "candidate g node nodeId (vs ! k)"
      by auto
    moreover from assms \<open>getNode g nodeId = Some node\<close> ch Some
    have "vs' = vs[k := addNode_vehicle (vs ! k) nodeId (demand node)]"
      by (simp add: assignNode_def)
    ultimately show ?thesis using \<open>getNode g nodeId = Some node\<close>
      by (auto simp: candidate_def)
  qed
qed

lemma assignNode_load:
  assumes "assignNode g vs nodeId = Inr vs'"
    and "\<forall>v \<in> set vs. currentLoad v \<le> capacity v"
  shows "\<forall>v \<in> set vs'. currentLoad v \<le> capacity v"
  using assignNode_cases [OF assms(1)]
proof (elim disjE exE conjE)
  assume "vs' = vs"
  with assms(2) show ?thesis by simp
next
  fix node :: Node and k
  assume k: "k < length vs" "canServe (vs ! k) (demand node)"
    and vs': "vs' = vs[k := addNode_vehicle (vs ! k) nodeId (demand node)]"
  show ?thesis
  proof
    fix v assume "v \<in> set vs'"
    then have "v = addNode_vehicle (vs ! k) nodeId (demand node) \<or> v \<in> set vs"
      unfolding vs' using set_update_subset_insert [of vs k] by blast
    then show "currentLoad v \<le> capacity v"
      using k(2) assms(2) by (auto simp: addNode_vehicle_def canServe_def)
  qed
qed

lemma assignAll_load:
  assumes "assignAll g ns vs = Inr vs'"
    and "\<forall>v \<in> set vs. currentLoad v \<le> capacity v"
  shows "\<forall>v \<in> set vs'. currentLoad v \<le> capacity v"
  using assms
proof (induction ns arbitrary: vs)
  case Nil
  then show ?case by simp
next
  case (Cons n ns)
  from Cons.prems(1) obtain vs1 where
    step: "assignNode g vs n = Inr vs1" and rest: "assignAll g ns vs1 = Inr vs'"
    by (auto split: sum.splits)
  show ?case by (rule Cons.IH [OF rest assignNode_load [OF step Cons.prems(2)]])
qed

lemma assignNode_total:
  assumes "\<forall>v \<in> set vs. route v \<noteq> []"
  shows "\<exists>vs'. assignNode g vs nodeId = Inr vs' \<and> (\<forall>v \<in> set vs'. route v \<noteq> [])"
proof (cases "getNode g nodeId")
  case None
  with assms show ?thesis by (simp add: assignNode_def)
next
  case (Some node)
  from chooseVehicle_total [OF assms] obtain b m where
    ch: "chooseVehicle g node nodeId vs 0 (None, DBL_MAX) = Inr (b, m)"
    by (metis surj_pair)
  show ?thesis
  proof (cases b)
    case None
    with Some ch assms show ?thesis by (simp add: assignNode_def)
  next
    case (Some k)
    have "\<forall>v \<in> set (vs[k := addNode_vehicle (vs ! k) nodeId (demand node)]). route v \<noteq> []"
    proof
      fix v assume "v \<in> set (vs[k := addNode_vehicle (vs ! k) nodeId (demand node)])"
      then have "v = addNode_vehicle (vs ! k) nodeId (demand node) \<or> v \<in> set vs"
        using set_update_subset_insert [of vs k] by blast
      then show "route v \<noteq> []" using assms by (auto simp: addNode_vehicle_def)
    qed
    with Some \<open>getNode g nodeId = Some node\<close> ch show ?thesis by (simp add: assignNode_def)
  qed
qed

lemma assignAll_total:
  assumes "\<forall>v \<in> set vs. route v \<noteq> []"
  shows "\<exists>vs'. assignAll g ns vs = Inr vs'"
  using assms
proof (induction ns arbitrary: vs)
  case Nil
  show ?case by simp
next
  case (Cons n ns)
  from assignNode_total [OF Cons.prems, of g n] obtain vs1 where
    "assignNode g vs n = Inr vs1" "\<forall>v \<in> set vs1. route v \<noteq> []" by blast
  with Cons.IH [of vs1] show ?case by simp
qed

lemma allocateVehicles_total:
  assumes "\<forall>v \<in> set vs. route v \<noteq> []"
  shows "\<exists>out. allocateVehicles g vs = Inr out"
  using assignAll_total [OF assms, of g "processingOrder g"]
  by (auto simp: allocateVehicles_def)

subsection \<open>The sort\<close>

lemma mset_insertSorted: "mset (insertSorted lt x ys) = add_mset x (mset ys)"
  by (induction ys) simp_all

lemma mset_foldl_insertSorted:
  "mset (foldl (\<lambda>sorted x. insertSorted lt x sorted) acc xs) = mset acc + mset xs"
  by (induction xs arbitrary: acc) (simp_all add: mset_insertSorted)

lemma mset_sortBy: "mset (sortBy lt xs) = mset xs"
  by (simp add: sortBy_def mset_foldl_insertSorted)

lemma set_insertSorted: "set (insertSorted lt x ys) = insert x (set ys)"
  by (induction ys) auto

lemma sorted_insertSorted:
  assumes trans: "\<And>a b c. lt a b \<Longrightarrow> lt b c \<Longrightarrow> lt a c"
    and asym: "\<And>a b. lt a b \<Longrightarrow> \<not> lt b a"
    and "sorted_wrt (\<lambda>a b. \<not> lt b a) ys"
  shows "sorted_wrt (\<lambda>a b. \<not> lt b a) (insertSorted lt x ys)"
  using assms(3)
proof (induction ys)
  case Nil
  show ?case by simp
next
  case (Cons y ys)
  show ?case
  proof (cases "lt x y")
    case True
    have "\<not> lt z x" if "z \<in> set ys" for z
    proof
      assume "lt z x"
      from this True have "lt z y" by (rule trans)
      with Cons.prems that show False by simp
    qed
    moreover from True have "\<not> lt y x" by (rule asym)
    ultimately show ?thesis using True Cons.prems by auto
  next
    case False
    with Cons show ?thesis by (auto simp: set_insertSorted)
  qed
qed

lemma sorted_foldl_insertSorted:
  assumes trans: "\<And>a b c. lt a b \<Longrightarrow> lt b c \<Longrightarrow> lt a c"
    and asym: "\<And>a b. lt a b \<Longrightarrow> \<not> lt b a"
    and "sorted_wrt (\<lambda>a b. \<not> lt b a) acc"
  shows "sorted_wrt (\<lambda>a b. \<not> lt b a) (foldl (\<lambda>sorted x. insertSorted lt x sorted) acc xs)"
  using assms(3)
proof (induction xs arbitrary: acc)
  case Nil
  then show ?case by simp
next
  case (Cons x xs)
  from sorted_insertSorted [of lt acc x, OF trans asym Cons.prems]
  have "sorted_wrt (\<lambda>a b. \<not> lt b a) (insertSorted lt x acc)" .
  from Cons.IH [OF this] show ?case by simp
qed

lemma sorted_sortBy:
  assumes "\<And>a b c. lt a b \<Longrightarrow> lt b c \<Longrightarrow> lt a c" and "\<And>a b. lt a b \<Longrightarrow> \<not> lt b a"
  shows "sorted_wrt (\<lambda>a b. \<not> lt b a) (sortBy lt xs)"
proof -
  have "sorted_wrt (\<lambda>a b. \<not> lt b a) []" by simp
  from sorted_foldl_insertSorted [of lt "[]" xs, OF assms this]
  show ?thesis by (simp add: sortBy_def)
qed

lemma nodesToAssign_known: "n \<in> set (nodesToAssign g) \<Longrightarrow> \<exists>node. getNode g n = Some node"
  by (auto simp: nodesToAssign_def split: option.splits)

lemma higherPriority_trans:
  "higherPriority g a b \<Longrightarrow> higherPriority g b c \<Longrightarrow> higherPriority g a c"
  by (auto simp: higherPriority_def split: option.splits)

lemma higherPriority_asym: "higherPriority g a b \<Longrightarrow> \<not> higherPriority g b a"
  by (auto simp: higherPriority_def split: option.splits)

lemma set_processingOrder: "set (processingOrder g) = set (nodesToAssign g)"
  using mset_sortBy [of "higherPriority g" "nodesToAssign g"]
  by (metis processingOrder_def set_mset_mset)

lemma processingOrder_sorted:
  "sorted_wrt (\<lambda>a b. prio g b \<le> prio g a) (processingOrder g)"
proof -
  have "sorted_wrt (\<lambda>a b. \<not> higherPriority g b a) (processingOrder g)"
    unfolding processingOrder_def
    by (rule sorted_sortBy [OF higherPriority_trans higherPriority_asym])
  moreover have "prio g b \<le> prio g a"
    if "a \<in> set (processingOrder g)" "b \<in> set (processingOrder g)" "\<not> higherPriority g b a" for a b
    using that nodesToAssign_known [of a g] nodesToAssign_known [of b g]
    by (auto simp: set_processingOrder higherPriority_def prio_def)
  ultimately show ?thesis
    by (rule sorted_wrt_mono_rel [rotated]) 
qed

lemma distinct_map_default:
  "distinct (map fst al) \<Longrightarrow> distinct (map fst (AList.map_default k v f al))"
  by (simp add: distinct_map_default)

lemma wellFormed_applyOp: "wellFormed g \<Longrightarrow> wellFormed (applyOp g opn)"
  by (cases opn)
     (auto simp: wellFormed_def addNode_def addEdge_def pushAdj_def
        distinct_update distinct_map_default)

lemma wellFormed_foldl: "wellFormed g \<Longrightarrow> wellFormed (foldl applyOp g ops)"
  by (induction ops arbitrary: g) (simp_all add: wellFormed_applyOp)

lemma wellFormed_buildGraph: "wellFormed (buildGraph ops)"
  unfolding buildGraph_def
  by (rule wellFormed_foldl) (simp add: wellFormed_def emptyGraph_def)

lemma distinct_processingOrder:
  assumes "wellFormed g"
  shows "distinct (processingOrder g)"
proof -
  from assms have "distinct (nodesToAssign g)"
    by (simp add: wellFormed_def nodesToAssign_def getAllNodeIds_def)
  then show ?thesis
    using mset_sortBy [of "higherPriority g" "nodesToAssign g"]
    by (metis processingOrder_def mset_eq_imp_distinct_iff)
qed

lemma mset_routes_update:
  assumes "k < length vs"
  shows "mset (concat (map route (vs[k := addNode_vehicle (vs ! k) n d])))
    = add_mset n (mset (concat (map route vs)))"
  using assms
proof (induction vs arbitrary: k)
  case Nil
  then show ?case by simp
next
  case (Cons v vs)
  then show ?case by (cases k) (simp_all add: addNode_vehicle_def)
qed

lemma assignNode_routes:
  assumes "assignNode g vs n = Inr vs'"
  shows "mset (concat (map route vs')) \<subseteq># add_mset n (mset (concat (map route vs)))"
  using assignNode_cases [OF assms] by (auto simp: mset_routes_update)

lemma assignAll_routes:
  assumes "assignAll g ns vs = Inr vs'"
  shows "mset (concat (map route vs')) \<subseteq># mset ns + mset (concat (map route vs))"
  using assms
proof (induction ns arbitrary: vs)
  case Nil
  then show ?case by simp
next
  case (Cons n ns)
  from Cons.prems obtain vs1 where
    step: "assignNode g vs n = Inr vs1" and rest: "assignAll g ns vs1 = Inr vs'"
    by (auto split: sum.splits)
  from Cons.IH [OF rest]
  have "mset (concat (map route vs')) \<subseteq># mset ns + mset (concat (map route vs1))" .
  also from assignNode_routes [OF step]
  have "\<dots> \<subseteq># mset ns + add_mset n (mset (concat (map route vs)))"
    by (rule subset_mset.add_left_mono)
  finally show ?case by simp
qed

lemma count_routes_finalize:
  "n \<noteq> 0 \<Longrightarrow> count_list (concat (map route (map finalizeRoute vs))) n
     = count_list (concat (map route vs)) n"
  by (induction vs) (simp_all add: finalizeRoute_def)

lemma count_routes_initial:
  "\<forall>v \<in> set vs. route v = [0] \<Longrightarrow> n \<noteq> 0 \<Longrightarrow> count_list (concat (map route vs)) n = 0"
  by (induction vs) simp_all

lemma allocateVehicles_count:
  assumes wf: "wellFormed g"
    and init: "\<forall>v \<in> set vs. route v = [0]"
    and out: "allocateVehicles g vs = Inr out"
    and n: "n \<noteq> 0"
  shows "count_list (concat (map route out)) n \<le> 1"
proof -
  from out obtain vs' where
    all: "assignAll g (processingOrder g) vs = Inr vs'" and fin: "out = map finalizeRoute vs'"
    by (auto simp: allocateVehicles_def split: sum.splits)
  from assignAll_routes [OF all]
  have "count (mset (concat (map route vs'))) n
      \<le> count (mset (processingOrder g) + mset (concat (map route vs))) n"
    by (rule mset_subset_eq_count)
  then have "count_list (concat (map route vs')) n
      \<le> count_list (processingOrder g) n + count_list (concat (map route vs)) n"
    by (simp add: count_mset)
  also have "count_list (concat (map route vs)) n = 0"
    using init n by (rule count_routes_initial)
  also have "count_list (processingOrder g) n \<le> 1"
    using distinct_processingOrder [OF wf]
    by (metis count_mset distinct_count_atmost_1 le_refl zero_le_one)
  finally have "count_list (concat (map route vs')) n \<le> 1" by simp
  moreover have "count_list (concat (map route out)) n = count_list (concat (map route vs')) n"
    unfolding fin by (rule count_routes_finalize [OF n])
  ultimately show ?thesis by simp
qed

lemma count_concat_one:
  assumes "count_list (concat xss) n \<le> 1"
  shows "(\<forall>xs \<in> set xss. count_list xs n \<le> 1)
    \<and> (\<forall>i < length xss. \<forall>j < length xss. n \<in> set (xss ! i) \<and> n \<in> set (xss ! j) \<longrightarrow> i = j)"
  using assms
proof (induction xss)
  case Nil
  show ?case by simp
next
  case (Cons xs xss)
  from Cons.prems have sum: "count_list xs n + count_list (concat xss) n \<le> 1" by simp
  then have rest: "count_list (concat xss) n \<le> 1" by simp
  note IH = Cons.IH [OF rest]
  have excl: "n \<notin> set (xss ! j)" if "n \<in> set xs" "j < length xss" for j
  proof -
    from that(1) have "count_list xs n \<noteq> 0" by (simp add: count_list_0_iff)
    then have "count_list xs n > 0" by simp
    with sum have "count_list (concat xss) n = 0" by simp
    then have "n \<notin> set (concat xss)" by (simp add: count_list_0_iff)
    with that(2) show ?thesis by auto
  qed
  have "\<forall>ys \<in> set (xs # xss). count_list ys n \<le> 1"
    using sum IH by auto
  moreover have "i = j"
    if "i < length (xs # xss)" "j < length (xs # xss)"
      "n \<in> set ((xs # xss) ! i)" "n \<in> set ((xs # xss) ! j)" for i j
  proof (cases i)
    case 0
    with that excl show ?thesis by (cases j) auto
  next
    case (Suc i')
    with that excl IH show ?thesis by (cases j) auto
  qed
  ultimately show ?case by blast
qed

lemmas allocate_eval = allocateVehicles_def processingOrder_def sortBy_def nodesToAssign_def
  higherPriority_def assignNode_def extraCostOf_def canServe_def addNode_vehicle_def
  finalizeRoute_def newVehicle_def

text \<open>
  Claim C2.  When every input vehicle starts with load \<open>0\<close> and a non-negative capacity,
  every vehicle that \<^verbatim>\<open>allocateVehicles\<close> returns has \<open>currentLoad \<le> capacity\<close>, and
  \<^verbatim>\<open>allocateVehicles\<close> does return when no route is empty.  The bound is an invariant
  of every assignment step, and the vehicle that a step chooses has passed the check
  \<open>currentLoad + demand \<le> capacity\<close>.  The non-negative demands of the claim are not
  needed.
\<close>

theorem C2_load_within_capacity:
  assumes "\<forall>v \<in> set vehicles. currentLoad v = 0 \<and> 0 \<le> capacity v"
  shows "(\<forall>out. allocateVehicles g vehicles = Inr out \<longrightarrow>
            (\<forall>v \<in> set out. currentLoad v \<le> capacity v))
    \<and> ((\<forall>v \<in> set vehicles. route v \<noteq> []) \<longrightarrow> (\<exists>out. allocateVehicles g vehicles = Inr out))
    \<and> (\<forall>vs nodeId vs'. (\<forall>v \<in> set vs. currentLoad v \<le> capacity v)
            \<and> assignNode g vs nodeId = Inr vs' \<longrightarrow> (\<forall>v \<in> set vs'. currentLoad v \<le> capacity v))
    \<and> (\<forall>vs node nodeId k m. chooseVehicle g node nodeId vs 0 (None, DBL_MAX) = Inr (Some k, m) \<longrightarrow>
            k < length vs \<and> canServe (vs ! k) (demand node))"
proof (intro conjI allI impI)
  fix out
  assume "allocateVehicles g vehicles = Inr out"
  then obtain vs' where
    all: "assignAll g (processingOrder g) vehicles = Inr vs'" and out: "out = map finalizeRoute vs'"
    by (auto simp: allocateVehicles_def split: sum.splits)
  from assms have "\<forall>v \<in> set vehicles. currentLoad v \<le> capacity v" by simp
  from assignAll_load [OF all this] show "\<forall>v \<in> set out. currentLoad v \<le> capacity v"
    by (simp add: out finalizeRoute_def)
next
  assume "\<forall>v \<in> set vehicles. route v \<noteq> []"
  then show "\<exists>out. allocateVehicles g vehicles = Inr out" by (rule allocateVehicles_total)
next
  fix vs nodeId vs'
  assume "(\<forall>v \<in> set vs. currentLoad v \<le> capacity v) \<and> assignNode g vs nodeId = Inr vs'"
  then show "\<forall>v \<in> set vs'. currentLoad v \<le> capacity v"
    using assignNode_load [of g vs nodeId vs'] by blast
next
  fix vs and node :: Node and nodeId k m
  assume "chooseVehicle g node nodeId vs 0 (None, DBL_MAX) = Inr (Some k, m)"
  from chooseVehicle_start [OF this]
  show "k < length vs" "canServe (vs ! k) (demand node)"
    by (auto simp: candidate_def)
qed

theorem C2_load_within_capacity_witness:
  "allocateVehicles scenarioGraph [newVehicle 1 5, newVehicle 2 7] =
     Inr [\<lparr>id_vehicle = 1, capacity = 5, currentLoad = 5, route = [0, 2, 0]\<rparr>,
          \<lparr>id_vehicle = 2, capacity = 7, currentLoad = 5, route = [0, 1, 0]\<rparr>]"
  using C2_load_within_capacity [of "[newVehicle 1 5, newVehicle 2 7]" scenarioGraph]
  by (simp add: allocate_eval dijkstra_eval scenarioGraph_def graph_eval)

text \<open>
  Claim C3.  For a graph whose node map has one entry per id and vehicles that all
  start with the route \<open>[0]\<close>, \<^verbatim>\<open>allocateVehicles\<close> returns, and every id other than the
  depot \<open>0\<close> occurs at most once in all returned routes together: at most once within a
  route, and in at most one route.
\<close>

theorem C3_location_in_at_most_one_route:
  assumes "wellFormed g" and "\<forall>v \<in> set vehicles. route v = [0]"
  shows "\<exists>out. allocateVehicles g vehicles = Inr out
    \<and> (\<forall>n. n \<noteq> 0 \<longrightarrow>
          count_list (concat (map route out)) n \<le> 1
          \<and> (\<forall>v \<in> set out. count_list (route v) n \<le> 1)
          \<and> (\<forall>i < length out. \<forall>j < length out.
                n \<in> set (route (out ! i)) \<and> n \<in> set (route (out ! j)) \<longrightarrow> i = j))"
proof -
  from assms(2) have "\<forall>v \<in> set vehicles. route v \<noteq> []" by simp
  then obtain out where out: "allocateVehicles g vehicles = Inr out"
    using allocateVehicles_total by blast
  have "count_list (concat (map route out)) n \<le> 1
      \<and> (\<forall>v \<in> set out. count_list (route v) n \<le> 1)
      \<and> (\<forall>i < length out. \<forall>j < length out.
            n \<in> set (route (out ! i)) \<and> n \<in> set (route (out ! j)) \<longrightarrow> i = j)"
    if "n \<noteq> 0" for n
  proof -
    from allocateVehicles_count [OF assms out that]
    have c: "count_list (concat (map route out)) n \<le> 1" .
    from count_concat_one [OF c] c show ?thesis by simp
  qed
  with out show ?thesis by blast
qed

theorem C3_location_in_at_most_one_route_witness:
  "wellFormed scenarioGraph
   \<and> allocateVehicles scenarioGraph [newVehicle 1 10, newVehicle 2 10] =
     Inr [\<lparr>id_vehicle = 1, capacity = 10, currentLoad = 10, route = [0, 2, 1, 0]\<rparr>,
          \<lparr>id_vehicle = 2, capacity = 10, currentLoad = 0, route = [0, 0]\<rparr>]"
  using C3_location_in_at_most_one_route [of scenarioGraph "[newVehicle 1 10, newVehicle 2 10]"]
  by (simp add: wellFormed_def allocate_eval dijkstra_eval scenarioGraph_def graph_eval)

text \<open>
  Claim C6, as amended.  The processing order is a rearrangement of the collected ids
  (the ids of the node map other than \<open>0\<close> whose demand is positive) in which priorities
  never increase.  The comparator looks at priorities only: it puts \<open>a\<close> before \<open>b\<close>
  exactly when both have an entry in the node map and the priority of \<open>a\<close> is the
  greater one, so it never separates two ids of equal priority and nothing orders them
  by id.
\<close>

theorem C6_priority_order:
  "mset (processingOrder g) = mset (nodesToAssign g)
   \<and> set (nodesToAssign g) =
       {n \<in> set (getAllNodeIds g). n \<noteq> 0 \<and> (\<exists>node. getNode g n = Some node \<and> 0 < demand node)}
   \<and> sorted_wrt (\<lambda>a b. prio g b \<le> prio g a) (processingOrder g)
   \<and> (\<forall>a b. higherPriority g a b \<longleftrightarrow>
          getNode g a \<noteq> None \<and> getNode g b \<noteq> None \<and> prio g b < prio g a)"
proof (intro conjI allI)
  show "mset (processingOrder g) = mset (nodesToAssign g)"
    by (simp add: processingOrder_def mset_sortBy)
  show "set (nodesToAssign g) =
       {n \<in> set (getAllNodeIds g). n \<noteq> 0 \<and> (\<exists>node. getNode g n = Some node \<and> 0 < demand node)}"
    by (auto simp: nodesToAssign_def split: option.splits)
  show "sorted_wrt (\<lambda>a b. prio g b \<le> prio g a) (processingOrder g)"
    by (rule processingOrder_sorted)
  show "higherPriority g a b \<longleftrightarrow>
      getNode g a \<noteq> None \<and> getNode g b \<noteq> None \<and> prio g b < prio g a" for a b
    by (auto simp: higherPriority_def prio_def split: option.splits)
qed

theorem C6_priority_order_witness:
  "processingOrder scenarioGraph = [2, 1]
   \<and> prio scenarioGraph 2 = 5 \<and> prio scenarioGraph 1 = 3
   \<and> higherPriority scenarioGraph 2 1 \<and> \<not> higherPriority scenarioGraph 1 2"
  using C6_priority_order [of scenarioGraph]
  by (simp add: prio_def allocate_eval scenarioGraph_def graph_eval)

text \<open>
  The locations \<open>1\<close>, \<open>3\<close> and \<open>2\<close> of \<open>tieGraph\<close> have the same priority, and the
  comparator separates no two of them.  Whether the node map enumerates its ids in the
  order in which they were added or the newest first, the processing order is not
  ascending in the id.
\<close>

theorem C6_no_id_tie_break_counterexample:
  "prio tieGraph 1 = 4 \<and> prio tieGraph 3 = 4 \<and> prio tieGraph 2 = 4
   \<and> \<not> higherPriority tieGraph 1 2 \<and> \<not> higherPriority tieGraph 2 1
   \<and> \<not> higherPriority tieGraph 1 3 \<and> \<not> higherPriority tieGraph 3 1
   \<and> \<not> higherPriority tieGraph 2 3 \<and> \<not> higherPriority tieGraph 3 2
   \<and> \<not> priorityThenId tieGraph (processingOrder tieGraph)
   \<and> \<not> priorityThenId (tieGraph\<lparr>nodes := rev (nodes tieGraph)\<rparr>)
         (processingOrder (tieGraph\<lparr>nodes := rev (nodes tieGraph)\<rparr>))"
  by (simp add: priorityThenId_def prio_def allocate_eval tieGraph_def graph_eval)

subsection \<open>Routes through the graph\<close>

lemma getNeighbors_in_adjacency:
  "neighbor \<in> set (getNeighbors g u) \<Longrightarrow> \<exists>entry \<in> set (adjacencyList g). neighbor \<in> set (snd entry)"
proof (cases "map_of (adjacencyList g) u")
  case None
  moreover assume "neighbor \<in> set (getNeighbors g u)"
  ultimately show ?thesis by (simp add: getNeighbors_def)
next
  case (Some ns)
  moreover assume "neighbor \<in> set (getNeighbors g u)"
  ultimately have "neighbor \<in> set ns" by (simp add: getNeighbors_def)
  moreover from Some have "(u, ns) \<in> set (adjacencyList g)" by (rule map_of_SomeD)
  ultimately show ?thesis by force
qed

lemma neighbor_cost_nonneg:
  "nonNegativeCosts g \<Longrightarrow> neighbor \<in> set (getNeighbors g u) \<Longrightarrow> 0 \<le> cost (snd neighbor)"
  using getNeighbors_in_adjacency [of neighbor g u] by (auto simp: nonNegativeCosts_def)

lemma neighbor_declared:
  "endpointsDeclared g \<Longrightarrow> neighbor \<in> set (getNeighbors g u) \<Longrightarrow> fst neighbor \<in> set (getAllNodeIds g)"
  using getNeighbors_in_adjacency [of neighbor g u] by (auto simp: endpointsDeclared_def)

lemma walk_nonneg:
  assumes "nonNegativeCosts g" "walk g s t d"
  shows "0 \<le> d"
  using assms(2)
proof (induction rule: walk.induct)
  case start
  show ?case by simp
next
  case (step u d v e)
  from neighbor_cost_nonneg [OF assms(1) step.hyps(2)] step.IH show ?case by simp
qed

text \<open>A walk that leaves the set \<open>A\<close> crosses its border on an adjacency entry.\<close>

lemma walk_exit:
  assumes "nonNegativeCosts g" "walk g s t d" "s \<in> A" "t \<notin> A"
  shows "\<exists>x dx neighbor. x \<in> A \<and> walk g s x dx \<and> neighbor \<in> set (getNeighbors g x)
    \<and> fst neighbor \<notin> A \<and> dx + cost (snd neighbor) \<le> d"
  using assms(2,4)
proof (induction rule: walk.induct)
  case start
  with assms(3) show ?case by simp
next
  case (step u d v e)
  note c = neighbor_cost_nonneg [OF assms(1) step.hyps(2)]
  show ?case
  proof (cases "u \<in> A")
    case True
    with step.hyps step.prems show ?thesis
      by (intro exI [of _ u] exI [of _ d] exI [of _ "(v, e)"]) simp
  next
    case False
    from step.IH [OF False] obtain x dx neighbor where
      "x \<in> A" "walk g s x dx" "neighbor \<in> set (getNeighbors g x)" "fst neighbor \<notin> A"
      "dx + cost (snd neighbor) \<le> d" by blast
    with c show ?thesis
      by (intro exI [of _ x] exI [of _ dx] exI [of _ neighbor]) simp
  qed
qed

lemma pqTop_least:
  "pqTop pq = Some m \<Longrightarrow> entry \<in> set pq \<Longrightarrow> \<not> pairLess entry m"
proof (induction pq arbitrary: m)
  case Nil
  then show ?case by simp
next
  case (Cons x xs)
  show ?case
  proof (cases "pqTop xs")
    case None
    with Cons.prems show ?thesis by (auto simp: pairLess_def)
  next
    case (Some m')
    show ?thesis
    proof (cases "pairLess m' x")
      case True
      with Some Cons.prems have m: "m = m'" by simp
      from Cons.prems(2) have "entry = x \<or> entry \<in> set xs" by simp
      then show ?thesis
      proof
        assume "entry = x"
        with True m show ?thesis by (auto simp: pairLess_def)
      next
        assume "entry \<in> set xs"
        with Cons.IH [OF Some] m show ?thesis by simp
      qed
    next
      case False
      with Some Cons.prems have m: "m = x" by simp
      from Cons.prems(2) have "entry = x \<or> entry \<in> set xs" by simp
      then show ?thesis
      proof
        assume "entry = x"
        with m show ?thesis by (auto simp: pairLess_def)
      next
        assume "entry \<in> set xs"
        with Cons.IH [OF Some] have "\<not> pairLess entry m'" by simp
        with False m show ?thesis by (auto simp: pairLess_def)
      qed
    qed
  qed
qed

lemma pqTop_fst_least:
  "pqTop pq = Some m \<Longrightarrow> entry \<in> set pq \<Longrightarrow> fst m \<le> fst entry"
  using pqTop_least [of pq m entry] by (auto simp: pairLess_def)

lemma dijkstraInv_iff:
  "dijkstraInv g s todo (distMap, visited, pq) \<longleftrightarrow>
      dom distMap = set (getAllNodeIds g) \<union> {s}
      \<and> (\<forall>v d. distMap v = Some d \<longrightarrow> 0 \<le> d \<and> d \<le> DBL_MAX \<and> (d < DBL_MAX \<longrightarrow> walk g s v d))
      \<and> (\<forall>entry \<in> set pq. fst entry < DBL_MAX
            \<and> (\<exists>d. distMap (snd entry) = Some d \<and> d \<le> fst entry))
      \<and> (\<forall>v d. v \<notin> visitedSet visited \<and> distMap v = Some d \<and> d < DBL_MAX \<longrightarrow> (d, v) \<in> set pq)
      \<and> (\<forall>u \<in> visitedSet visited. \<exists>du. distMap u = Some du \<and> du < DBL_MAX
            \<and> (\<forall>d. walk g s u d \<longrightarrow> du \<le> d)
            \<and> (\<forall>neighbor \<in> set (getNeighbors g u). (u, neighbor) \<notin> todo \<longrightarrow>
                  (\<exists>dv. distMap (fst neighbor) = Some dv \<and> dv \<le> du + cost (snd neighbor))))
      \<and> (s \<in> visitedSet visited
          \<or> (visitedSet visited = {} \<and> pq = [(0, s)] \<and> distMap s = Some 0))"
  by (simp add: dijkstraInv_def Let_def)

lemma valueAt_visited: "valueAt visited v False \<longleftrightarrow> v \<in> visitedSet visited"
  by (auto simp: valueAt_def visitedSet_def split: option.splits)

lemma touch_present: "m k = Some x \<Longrightarrow> touch m k d = m"
  by (simp add: touch_def)

lemma valueAt_present: "m k = Some x \<Longrightarrow> valueAt m k d = x"
  by (simp add: valueAt_def)

declare relax.simps [simp del] dijkstraStep.simps [simp del]

lemma relax_preserves:
  assumes nn: "nonNegativeCosts g" and decl: "endpointsDeclared g"
    and inv: "dijkstraInv g s ({u} \<times> set (neighbor # rest)) (distMap, visited, pq)"
    and u: "u \<in> visitedSet visited"
    and nb: "neighbor \<in> set (getNeighbors g u)"
  shows "\<exists>distMap' visited' pq'. relax u (distMap, visited, pq) neighbor = (distMap', visited', pq')
    \<and> visitedSet visited' = visitedSet visited
    \<and> dijkstraInv g s ({u} \<times> set rest) (distMap', visited', pq')"
proof -
  let ?V = "visitedSet visited"
  let ?v = "fst neighbor" and ?c = "cost (snd neighbor)"
  note I = inv [unfolded dijkstraInv_iff]
  from I have dom: "dom distMap = set (getAllNodeIds g) \<union> {s}" by blast
  from I have lab: "\<And>w d. distMap w = Some d \<Longrightarrow> 0 \<le> d \<and> d \<le> DBL_MAX \<and> (d < DBL_MAX \<longrightarrow> walk g s w d)"
    by blast
  from I have que: "\<And>entry. entry \<in> set pq \<Longrightarrow> fst entry < DBL_MAX
            \<and> (\<exists>d. distMap (snd entry) = Some d \<and> d \<le> fst entry)" by blast
  from I have open_nodes: "\<And>w d. w \<notin> ?V \<Longrightarrow> distMap w = Some d \<Longrightarrow> d < DBL_MAX \<Longrightarrow> (d, w) \<in> set pq"
    by blast
  from I have closed: "\<And>x. x \<in> ?V \<Longrightarrow> \<exists>dx. distMap x = Some dx \<and> dx < DBL_MAX
            \<and> (\<forall>d. walk g s x d \<longrightarrow> dx \<le> d)
            \<and> (\<forall>nb' \<in> set (getNeighbors g x). (x, nb') \<notin> {u} \<times> set (neighbor # rest) \<longrightarrow>
                  (\<exists>dv. distMap (fst nb') = Some dv \<and> dv \<le> dx + cost (snd nb')))"
    by blast
  from I u have src: "s \<in> ?V" by blast
  from closed [OF u] obtain du where
    du: "distMap u = Some du" "du < DBL_MAX" "\<And>d. walk g s u d \<Longrightarrow> du \<le> d" by blast
  from lab [OF du(1)] du(2) have wu: "walk g s u du" and du0: "0 \<le> du" by simp_all
  from neighbor_declared [OF decl nb] dom obtain dv where dv: "distMap ?v = Some dv"
    by blast
  note c0 = neighbor_cost_nonneg [OF nn nb]
  have wv: "walk g s ?v (du + ?c)"
    using walk.step [OF wu, of ?v "snd neighbor"] nb by simp
  show ?thesis
  proof (cases "?v \<in> ?V")
    case True
    then have eq: "relax u (distMap, visited, pq) neighbor = (distMap, touch visited ?v False, pq)"
      by (simp add: relax.simps Let_def valueAt_visited)
    from closed [OF True] dv have "dv \<le> du + ?c" using wv by auto
    with dv have new: "\<exists>d. distMap ?v = Some d \<and> d \<le> du + ?c" by simp
    have "dijkstraInv g s ({u} \<times> set rest) (distMap, touch visited ?v False, pq)"
      unfolding dijkstraInv_iff visitedSet_touch
    proof (intro conjI ballI allI impI)
      fix x assume x: "x \<in> ?V"
      from closed [OF x] obtain dx where dx: "distMap x = Some dx" "dx < DBL_MAX"
        "\<forall>d. walk g s x d \<longrightarrow> dx \<le> d"
        "\<forall>nb' \<in> set (getNeighbors g x). (x, nb') \<notin> {u} \<times> set (neighbor # rest) \<longrightarrow>
                  (\<exists>dv. distMap (fst nb') = Some dv \<and> dv \<le> dx + cost (snd nb'))" by blast
      have "\<exists>dv. distMap (fst nb') = Some dv \<and> dv \<le> dx + cost (snd nb')"
        if "nb' \<in> set (getNeighbors g x)" "(x, nb') \<notin> {u} \<times> set rest" for nb'
      proof (cases "x = u \<and> nb' = neighbor")
        case True
        with new dx(1) du(1) show ?thesis by simp
      next
        case False
        with that dx(4) show ?thesis by auto
      qed
      with dx show "\<exists>du. distMap x = Some du \<and> du < DBL_MAX
            \<and> (\<forall>d. walk g s x d \<longrightarrow> du \<le> d)
            \<and> (\<forall>neighbor \<in> set (getNeighbors g x). (x, neighbor) \<notin> {u} \<times> set rest \<longrightarrow>
                  (\<exists>dv. distMap (fst neighbor) = Some dv \<and> dv \<le> du + cost (snd neighbor)))"
        by blast
    qed (use dom lab que open_nodes src in \<open>blast+\<close>)
    with eq show ?thesis by simp
  next
    case False
    have t: "touch (touch distMap u 0) ?v 0 = distMap"
      using du(1) dv by (simp add: touch_present)
    show ?thesis
    proof (cases "du + ?c < dv")
      case less: True
      let ?D = "distMap(?v \<mapsto> du + ?c)" and ?Q = "pq @ [(du + ?c, ?v)]"
      from False less have eq: "relax u (distMap, visited, pq) neighbor
          = (?D, touch visited ?v False, ?Q)"
        using du(1) dv by (simp add: relax.simps Let_def valueAt_visited t valueAt_present)
      from lab [OF dv] less have small: "du + ?c < DBL_MAX" by simp
      have "dijkstraInv g s ({u} \<times> set rest) (?D, touch visited ?v False, ?Q)"
        unfolding dijkstraInv_iff visitedSet_touch
      proof (intro conjI ballI allI impI)
        show "dom ?D = set (getAllNodeIds g) \<union> {s}"
          using dom dv by auto
      next
        fix w d assume "?D w = Some d"
        then have "(w = ?v \<and> d = du + ?c) \<or> distMap w = Some d" by (auto split: if_splits)
        then show "0 \<le> d" "d \<le> DBL_MAX" "d < DBL_MAX \<Longrightarrow> walk g s w d"
          using lab [of w d] wv du0 c0 small by auto
      next
        fix entry assume "entry \<in> set ?Q"
        then have "entry = (du + ?c, ?v) \<or> entry \<in> set pq" by auto
        then show "fst entry < DBL_MAX"
          using que [of entry] small by auto
        from \<open>entry = (du + ?c, ?v) \<or> entry \<in> set pq\<close>
        show "\<exists>d. ?D (snd entry) = Some d \<and> d \<le> fst entry"
        proof
          assume "entry = (du + ?c, ?v)"
          then show ?thesis by simp
        next
          assume "entry \<in> set pq"
          from que [OF this] obtain d where d: "distMap (snd entry) = Some d" "d \<le> fst entry"
            by blast
          show ?thesis
          proof (cases "snd entry = ?v")
            case True
            with d dv less show ?thesis by simp
          next
            case False
            with d show ?thesis by simp
          qed
        qed
      next
        fix w d assume "w \<notin> ?V \<and> ?D w = Some d \<and> d < DBL_MAX"
        then show "(d, w) \<in> set ?Q"
          using open_nodes [of w d] by (auto split: if_splits)
      next
        fix x assume x: "x \<in> ?V"
        with False have xv: "x \<noteq> ?v" by auto
        from closed [OF x] obtain dx where dx: "distMap x = Some dx" "dx < DBL_MAX"
          "\<forall>d. walk g s x d \<longrightarrow> dx \<le> d"
          "\<forall>nb' \<in> set (getNeighbors g x). (x, nb') \<notin> {u} \<times> set (neighbor # rest) \<longrightarrow>
                    (\<exists>dv. distMap (fst nb') = Some dv \<and> dv \<le> dx + cost (snd nb'))" by blast
        have "\<exists>dw. ?D (fst nb') = Some dw \<and> dw \<le> dx + cost (snd nb')"
          if "nb' \<in> set (getNeighbors g x)" "(x, nb') \<notin> {u} \<times> set rest" for nb'
        proof (cases "x = u \<and> nb' = neighbor")
          case True
          with dx(1) du(1) show ?thesis by simp
        next
          case False
          with that dx(4) obtain dw where dw: "distMap (fst nb') = Some dw"
            "dw \<le> dx + cost (snd nb')" by auto
          show ?thesis
          proof (cases "fst nb' = ?v")
            case True
            with dw dv less show ?thesis by simp
          next
            case False
            with dw show ?thesis by simp
          qed
        qed
        with dx xv show "\<exists>du. ?D x = Some du \<and> du < DBL_MAX
              \<and> (\<forall>d. walk g s x d \<longrightarrow> du \<le> d)
              \<and> (\<forall>neighbor \<in> set (getNeighbors g x). (x, neighbor) \<notin> {u} \<times> set rest \<longrightarrow>
                    (\<exists>dv. ?D (fst neighbor) = Some dv \<and> dv \<le> du + cost (snd neighbor)))"
          by simp
      next
        show "s \<in> ?V \<or> (?V = {} \<and> ?Q = [(0, s)] \<and> ?D s = Some 0)"
          using src by simp
      qed
      with eq show ?thesis by simp
    next
      case notless: False
      from False notless have eq: "relax u (distMap, visited, pq) neighbor
          = (distMap, touch visited ?v False, pq)"
        using du(1) dv by (simp add: relax.simps Let_def valueAt_visited t valueAt_present)
      from notless dv have new: "\<exists>d. distMap ?v = Some d \<and> d \<le> du + ?c" by simp
      have "dijkstraInv g s ({u} \<times> set rest) (distMap, touch visited ?v False, pq)"
        unfolding dijkstraInv_iff visitedSet_touch
      proof (intro conjI ballI allI impI)
        fix x assume x: "x \<in> ?V"
        from closed [OF x] obtain dx where dx: "distMap x = Some dx" "dx < DBL_MAX"
          "\<forall>d. walk g s x d \<longrightarrow> dx \<le> d"
          "\<forall>nb' \<in> set (getNeighbors g x). (x, nb') \<notin> {u} \<times> set (neighbor # rest) \<longrightarrow>
                    (\<exists>dv. distMap (fst nb') = Some dv \<and> dv \<le> dx + cost (snd nb'))" by blast
        have "\<exists>dv. distMap (fst nb') = Some dv \<and> dv \<le> dx + cost (snd nb')"
          if "nb' \<in> set (getNeighbors g x)" "(x, nb') \<notin> {u} \<times> set rest" for nb'
        proof (cases "x = u \<and> nb' = neighbor")
          case True
          with new dx(1) du(1) show ?thesis by simp
        next
          case False
          with that dx(4) show ?thesis by auto
        qed
        with dx show "\<exists>du. distMap x = Some du \<and> du < DBL_MAX
              \<and> (\<forall>d. walk g s x d \<longrightarrow> du \<le> d)
              \<and> (\<forall>neighbor \<in> set (getNeighbors g x). (x, neighbor) \<notin> {u} \<times> set rest \<longrightarrow>
                    (\<exists>dv. distMap (fst neighbor) = Some dv \<and> dv \<le> du + cost (snd neighbor)))"
          by blast
      qed (use dom lab que open_nodes src in \<open>blast+\<close>)
      with eq show ?thesis by simp
    qed
  qed
qed

lemma foldl_relax_preserves:
  assumes nn: "nonNegativeCosts g" and decl: "endpointsDeclared g"
    and inv: "dijkstraInv g s ({u} \<times> set nbs) st"
    and u: "u \<in> visitedSet (fst (snd st))"
    and sub: "set nbs \<subseteq> set (getNeighbors g u)"
  shows "dijkstraInv g s {} (foldl (relax u) st nbs)"
  using inv u sub
proof (induction nbs arbitrary: st)
  case Nil
  then show ?case by simp
next
  case (Cons neighbor rest)
  obtain distMap visited pq where st: "st = (distMap, visited, pq)" by (cases st)
  from Cons.prems have nb: "neighbor \<in> set (getNeighbors g u)"
    and rest: "set rest \<subseteq> set (getNeighbors g u)" by auto
  from relax_preserves [OF nn decl Cons.prems(1) [unfolded st] _ nb] Cons.prems(2)
  obtain distMap' visited' pq' where
    r: "relax u (distMap, visited, pq) neighbor = (distMap', visited', pq')"
    and v: "visitedSet visited' = visitedSet visited"
    and i: "dijkstraInv g s ({u} \<times> set rest) (distMap', visited', pq')"
    unfolding st by auto
  from Cons.prems(2) v have "u \<in> visitedSet (fst (snd (distMap', visited', pq')))"
    by (simp add: st)
  from Cons.IH [OF i this rest] show ?case by (simp add: st r)
qed

lemma in_remove1_other: "x \<in> set xs \<Longrightarrow> x \<noteq> y \<Longrightarrow> x \<in> set (remove1 y xs)"
  by (induction xs) auto

lemma dijkstraStep_preserves:
  assumes nn: "nonNegativeCosts g" and decl: "endpointsDeclared g"
    and inv: "dijkstraInv g s {} (distMap, visited, pq)"
    and tp: "pqTop pq = Some tp"
  shows "dijkstraInv g s {} (dijkstraStep g (distMap, visited, pq))"
proof -
  let ?V = "visitedSet visited"
  let ?u = "snd tp"
  note I = inv [unfolded dijkstraInv_iff, simplified]
  from I have dom: "dom distMap = set (getAllNodeIds g) \<union> {s}" by blast
  from I have lab: "\<And>w d. distMap w = Some d \<Longrightarrow> 0 \<le> d \<and> d \<le> DBL_MAX \<and> (d < DBL_MAX \<longrightarrow> walk g s w d)"
    by blast
  from I have que: "\<And>entry. entry \<in> set pq \<Longrightarrow> fst entry < DBL_MAX
            \<and> (\<exists>d. distMap (snd entry) = Some d \<and> d \<le> fst entry)" by blast
  from I have open_nodes: "\<And>w d. w \<notin> ?V \<Longrightarrow> distMap w = Some d \<Longrightarrow> d < DBL_MAX \<Longrightarrow> (d, w) \<in> set pq"
    by blast
  from I have closed: "\<And>x. x \<in> ?V \<Longrightarrow> \<exists>dx. distMap x = Some dx \<and> dx < DBL_MAX
            \<and> (\<forall>d. walk g s x d \<longrightarrow> dx \<le> d)
            \<and> (\<forall>nb' \<in> set (getNeighbors g x).
                  (\<exists>dv. distMap (fst nb') = Some dv \<and> dv \<le> dx + cost (snd nb')))"
    by blast
  from I have src: "s \<in> ?V \<or> (?V = {} \<and> pq = [(0, s)] \<and> distMap s = Some 0)" by blast
  from tp have mem: "tp \<in> set pq" by (rule pqTop_in)
  have rem: "set (remove1 tp pq) \<subseteq> set pq" by (rule set_remove1_subset)
  show ?thesis
  proof (cases "?u \<in> ?V")
    case True
    then have eq: "dijkstraStep g (distMap, visited, pq)
        = (distMap, touch visited ?u False, remove1 tp pq)"
      by (simp add: dijkstraStep.simps tp Let_def valueAt_visited)
    from True src have s: "s \<in> ?V" by auto
    have keep: "(d, w) \<in> set (remove1 tp pq)"
      if "w \<notin> ?V" "distMap w = Some d" "d < DBL_MAX" for w d
    proof (rule in_remove1_other)
      from that show "(d, w) \<in> set pq" by (rule open_nodes)
      from that(1) True show "(d, w) \<noteq> tp" by auto
    qed
    have "dijkstraInv g s {} (distMap, touch visited ?u False, remove1 tp pq)"
      unfolding dijkstraInv_iff visitedSet_touch
    proof (intro conjI ballI allI impI)
      fix entry assume "entry \<in> set (remove1 tp pq)"
      with rem have "entry \<in> set pq" by blast
      from que [OF this] show "fst entry < DBL_MAX"
        "\<exists>d. distMap (snd entry) = Some d \<and> d \<le> fst entry" by simp_all
    next
      fix w d assume "w \<notin> ?V \<and> distMap w = Some d \<and> d < DBL_MAX"
      then show "(d, w) \<in> set (remove1 tp pq)" using keep by blast
    next
      fix x assume "x \<in> ?V"
      from closed [OF this] show "\<exists>du. distMap x = Some du \<and> du < DBL_MAX
            \<and> (\<forall>d. walk g s x d \<longrightarrow> du \<le> d)
            \<and> (\<forall>neighbor \<in> set (getNeighbors g x). (x, neighbor) \<notin> {} \<longrightarrow>
                  (\<exists>dv. distMap (fst neighbor) = Some dv \<and> dv \<le> du + cost (snd neighbor)))"
        by blast
    next
      show "s \<in> ?V \<or> (?V = {} \<and> remove1 tp pq = [(0, s)] \<and> distMap s = Some 0)"
        using s by simp
    qed (use dom lab in \<open>blast+\<close>)
    with eq show ?thesis by simp
  next
    case False
    let ?visited1 = "(touch visited ?u False)(?u \<mapsto> True)"
    let ?st1 = "(distMap, ?visited1, remove1 tp pq)"
    have V1: "visitedSet ?visited1 = insert ?u ?V"
      by (auto simp: visitedSet_def touch_def split: option.splits)
    from False have eq: "dijkstraStep g (distMap, visited, pq)
        = foldl (relax ?u) ?st1 (getNeighbors g ?u)"
      by (simp add: dijkstraStep.simps tp Let_def valueAt_visited)
    from que [OF mem] obtain du where du: "distMap ?u = Some du" "du \<le> fst tp" "fst tp < DBL_MAX"
      by blast
    then have small: "du < DBL_MAX" by simp
    from open_nodes [OF False du(1) small] have "(du, ?u) \<in> set pq" .
    from pqTop_fst_least [OF tp this] du(2) have top: "fst tp = du" by simp
    have best: "du \<le> d" if w: "walk g s ?u d" for d
    proof (cases "s \<in> ?V")
      case True
      from walk_exit [OF nn w True False] obtain x dx neighbor where
        x: "x \<in> ?V" "walk g s x dx" "neighbor \<in> set (getNeighbors g x)"
          "fst neighbor \<notin> ?V" "dx + cost (snd neighbor) \<le> d" by blast
      from closed [OF x(1)] x(2,3) obtain dx0 dy where
        "distMap x = Some dx0" "dx0 \<le> dx"
        and dy: "distMap (fst neighbor) = Some dy" "dy \<le> dx0 + cost (snd neighbor)"
        by blast
      with x(5) have le: "dy \<le> d" by simp
      show ?thesis
      proof (cases "dy < DBL_MAX")
        case True
        from open_nodes [OF x(4) dy(1) True] have "(dy, fst neighbor) \<in> set pq" .
        from pqTop_fst_least [OF tp this] top le show ?thesis by simp
      next
        case False
        with le small show ?thesis by simp
      qed
    next
      case False
      with src mem have "tp = (0, s)" "distMap s = Some 0" by auto
      with du(1) have "du = 0" by simp
      with walk_nonneg [OF nn w] show ?thesis by simp
    qed
    have keep: "(d, w) \<in> set (remove1 tp pq)"
      if "w \<notin> insert ?u ?V" "distMap w = Some d" "d < DBL_MAX" for w d
    proof (rule in_remove1_other)
      from that show "(d, w) \<in> set pq" using open_nodes [of w d] by simp
      from that(1) show "(d, w) \<noteq> tp" by auto
    qed
    have "dijkstraInv g s ({?u} \<times> set (getNeighbors g ?u)) ?st1"
      unfolding dijkstraInv_iff V1
    proof (intro conjI ballI allI impI)
      fix entry assume "entry \<in> set (remove1 tp pq)"
      with rem have "entry \<in> set pq" by blast
      from que [OF this] show "fst entry < DBL_MAX"
        "\<exists>d. distMap (snd entry) = Some d \<and> d \<le> fst entry" by simp_all
    next
      fix w d assume "w \<notin> insert ?u ?V \<and> distMap w = Some d \<and> d < DBL_MAX"
      then show "(d, w) \<in> set (remove1 tp pq)" using keep by blast
    next
      fix x assume "x \<in> insert ?u ?V"
      then show "\<exists>dx. distMap x = Some dx \<and> dx < DBL_MAX
            \<and> (\<forall>d. walk g s x d \<longrightarrow> dx \<le> d)
            \<and> (\<forall>neighbor \<in> set (getNeighbors g x).
                  (x, neighbor) \<notin> {?u} \<times> set (getNeighbors g ?u) \<longrightarrow>
                  (\<exists>dv. distMap (fst neighbor) = Some dv \<and> dv \<le> dx + cost (snd neighbor)))"
      proof
        assume "x = ?u"
        with du(1) small best show ?thesis by auto
      next
        assume "x \<in> ?V"
        from closed [OF this] show ?thesis by blast
      qed
    next
      show "s \<in> insert ?u ?V
          \<or> (insert ?u ?V = {} \<and> remove1 tp pq = [(0, s)] \<and> distMap s = Some 0)"
        using src mem by auto
    qed (use dom lab in \<open>blast+\<close>)
    from foldl_relax_preserves [OF nn decl this] V1
    have "dijkstraInv g s {} (foldl (relax ?u) ?st1 (getNeighbors g ?u))" by simp
    with eq show ?thesis by simp
  qed
qed

lemma dijkstraLoop_preserves:
  assumes nn: "nonNegativeCosts g" and decl: "endpointsDeclared g"
    and inv: "dijkstraInv g s {} st"
  shows "dijkstraInv g s {} (dijkstraLoop g st) \<and> snd (snd (dijkstraLoop g st)) = []"
  using nn decl inv
proof (induction g st rule: dijkstraLoop.induct)
  case (1 g st)
  note nn = "1.prems"(1) and decl = "1.prems"(2) and inv = "1.prems"(3)
  show ?case
  proof (cases "snd (snd st) = []")
    case True
    with inv show ?thesis by (simp add: dijkstraLoop.simps)
  next
    case False
    obtain distMap visited pq where st: "st = (distMap, visited, pq)" by (cases st)
    with False obtain tp where tp: "pqTop pq = Some tp" by (cases "pqTop pq") auto
    from dijkstraStep_preserves [OF nn decl inv [unfolded st] tp]
    have "dijkstraInv g s {} (dijkstraStep g st)" by (simp add: st)
    from "1.IH" [OF False nn decl this] False show ?thesis by (simp add: dijkstraLoop.simps)
  qed
qed

lemma foldl_map_upd:
  "foldl (\<lambda>m k. m(k \<mapsto> c)) m0 ks = (\<lambda>k. if k \<in> set ks then Some c else m0 k)"
  by (induction ks arbitrary: m0) (auto simp: fun_eq_iff)

lemma dijkstraInit_eq:
  "dijkstraInit g s =
     ((\<lambda>k. if k = s then Some 0 else if k \<in> set (getAllNodeIds g) then Some DBL_MAX else None),
      (\<lambda>k. if k \<in> set (getAllNodeIds g) then Some False else None),
      [(0, s)])"
  by (auto simp: dijkstraInit_def Let_def foldl_map_upd fun_eq_iff)

lemma DBL_MAX_pos: "0 < DBL_MAX"
  by (rule below_DBL_MAX) simp

lemma dijkstraInv_init: "dijkstraInv g s {} (dijkstraInit g s)"
  unfolding dijkstraInit_eq dijkstraInv_iff
proof (intro conjI ballI allI impI)
  fix v d
  assume "(if v = s then Some 0 else if v \<in> set (getAllNodeIds g) then Some DBL_MAX else None) = Some d"
  then have "(v = s \<and> d = 0) \<or> d = DBL_MAX" by (auto split: if_splits)
  then show "0 \<le> d" "d \<le> DBL_MAX" "d < DBL_MAX \<Longrightarrow> walk g s v d"
    using DBL_MAX_pos by (auto intro: walk.start)
next
  fix v d
  assume "v \<notin> visitedSet (\<lambda>k. if k \<in> set (getAllNodeIds g) then Some False else None)
    \<and> (if v = s then Some 0 else if v \<in> set (getAllNodeIds g) then Some DBL_MAX else None) = Some d
    \<and> d < DBL_MAX"
  then show "(d, v) \<in> set [(0, s)]" by (auto split: if_splits)
qed (auto simp: visitedSet_def DBL_MAX_pos split: if_splits)

lemma walk_declared:
  assumes "endpointsDeclared g" "walk g s t d"
  shows "t = s \<or> t \<in> set (getAllNodeIds g)"
  using assms(2)
proof (induction rule: walk.induct)
  case start
  show ?case by simp
next
  case (step u d v e)
  from neighbor_declared [OF assms(1) step.hyps(2)] show ?case by simp
qed

text \<open>What the distance map holds when the loop has ended.\<close>

lemma dijkstra_result:
  assumes nn: "nonNegativeCosts g" and decl: "endpointsDeclared g"
  shows "dom (dijkstra g s) = set (getAllNodeIds g) \<union> {s}"
    and "dijkstra g s s = Some 0"
    and "dijkstra g s t = Some d \<Longrightarrow> 0 \<le> d \<and> d \<le> DBL_MAX \<and> (d < DBL_MAX \<longrightarrow> walk g s t d)"
    and "walk g s t d' \<Longrightarrow> \<exists>m. dijkstra g s t = Some m \<and> m \<le> d'"
proof -
  obtain distMap visited pq where fin: "dijkstraLoop g (dijkstraInit g s) = (distMap, visited, pq)"
    by (cases "dijkstraLoop g (dijkstraInit g s)")
  have "dijkstraInv g s {} (dijkstraLoop g (dijkstraInit g s))
      \<and> snd (snd (dijkstraLoop g (dijkstraInit g s))) = []"
    by (rule dijkstraLoop_preserves [OF nn decl dijkstraInv_init])
  then have both: "dijkstraInv g s {} (distMap, visited, pq) \<and> pq = []"
    unfolding fin snd_conv .
  then have inv: "dijkstraInv g s {} (distMap, visited, pq)" and empty: "pq = []"
    by (rule conjunct1, rule conjunct2)
  have res: "dijkstra g s = distMap" by (simp add: dijkstra_def fin)
  let ?V = "visitedSet visited"
  note I = inv [unfolded dijkstraInv_iff empty, simplified]
  from I have dom: "dom distMap = set (getAllNodeIds g) \<union> {s}" by blast
  from I have lab: "\<And>w d. distMap w = Some d \<Longrightarrow> 0 \<le> d \<and> d \<le> DBL_MAX \<and> (d < DBL_MAX \<longrightarrow> walk g s w d)"
    by blast
  from I have open_nodes: "\<And>w d. w \<notin> ?V \<Longrightarrow> distMap w = Some d \<Longrightarrow> \<not> d < DBL_MAX"
    by blast
  from I have closed: "\<And>x. x \<in> ?V \<Longrightarrow> \<exists>dx. distMap x = Some dx \<and> dx < DBL_MAX
            \<and> (\<forall>d. walk g s x d \<longrightarrow> dx \<le> d)
            \<and> (\<forall>nb' \<in> set (getNeighbors g x).
                  (\<exists>dv. distMap (fst nb') = Some dv \<and> dv \<le> dx + cost (snd nb')))"
    by blast
  from I have src: "s \<in> ?V" by blast
  show "dom (dijkstra g s) = set (getAllNodeIds g) \<union> {s}"
    by (simp only: res dom)
  from closed [OF src] obtain ds where ds: "distMap s = Some ds" "\<forall>d. walk g s s d \<longrightarrow> ds \<le> d"
    by blast
  from ds(2) walk.start [of g s] have "ds \<le> 0" by blast
  with lab [OF ds(1)] ds(1) show "dijkstra g s s = Some 0" by (simp add: res)
  show "0 \<le> d \<and> d \<le> DBL_MAX \<and> (d < DBL_MAX \<longrightarrow> walk g s t d)" if "dijkstra g s t = Some d"
    using that lab [of t d] by (simp add: res)
  show "\<exists>m. dijkstra g s t = Some m \<and> m \<le> d'" if w: "walk g s t d'"
  proof (cases "t \<in> ?V")
    case True
    from closed [OF True] w show ?thesis unfolding res by blast
  next
    case False
    from walk_exit [OF nn w src False] obtain x dx neighbor where
      x: "x \<in> ?V" "walk g s x dx" "neighbor \<in> set (getNeighbors g x)"
        "fst neighbor \<notin> ?V" "dx + cost (snd neighbor) \<le> d'" by blast
    from closed [OF x(1)] x(2,3) obtain dx0 dy where
      "distMap x = Some dx0" "dx0 \<le> dx"
      and dy: "distMap (fst neighbor) = Some dy" "dy \<le> dx0 + cost (snd neighbor)"
      by blast
    with x(5) have "dy \<le> d'" by simp
    with open_nodes [OF x(4) dy(1)] have big: "DBL_MAX \<le> d'" by simp
    from walk_declared [OF decl w] dom obtain m where m: "distMap t = Some m" by blast
    with lab [OF m] big show ?thesis unfolding res by auto
  qed
qed

text \<open>
  Claim C4, as amended.  The graph has no negative edge cost and every id that an
  adjacency entry names is an id of the node map.  Then \<^verbatim>\<open>dijkstra\<close> returns a map whose
  keys are the ids of the node map (and the source); the source maps to \<open>0\<close>; every
  entry lies between \<open>0\<close> and \<open>DBL_MAX\<close>, and an entry below \<open>DBL_MAX\<close> is the cost of a
  route from the source; every id of the node map that no route reaches from the source
  maps to \<open>DBL_MAX\<close>; every id that some route of cost below \<open>DBL_MAX\<close> reaches maps to
  its minimum cumulative cost; and every id of the node map whose every route from the
  source costs \<open>DBL_MAX\<close> or more maps to \<open>DBL_MAX\<close>.
\<close>

theorem C4_dijkstra_distances:
  assumes "nonNegativeCosts g" and "endpointsDeclared g"
  shows "dom (dijkstra g s) = set (getAllNodeIds g) \<union> {s}
    \<and> dijkstra g s s = Some 0
    \<and> (\<forall>t m. dijkstra g s t = Some m \<longrightarrow>
          0 \<le> m \<and> m \<le> DBL_MAX \<and> (m < DBL_MAX \<longrightarrow> walk g s t m))
    \<and> (\<forall>t \<in> set (getAllNodeIds g). \<not> reachable g s t \<longrightarrow> dijkstra g s t = Some DBL_MAX)
    \<and> (\<forall>t d. walk g s t d \<and> d < DBL_MAX \<longrightarrow> (\<exists>m. minCost g s t m \<and> dijkstra g s t = Some m))
    \<and> (\<forall>t \<in> set (getAllNodeIds g). (\<forall>d. walk g s t d \<longrightarrow> DBL_MAX \<le> d) \<longrightarrow>
          dijkstra g s t = Some DBL_MAX)"
proof (intro conjI ballI allI impI)
  note R = dijkstra_result [OF assms]
  show dom: "dom (dijkstra g s) = set (getAllNodeIds g) \<union> {s}" by (rule R(1))
  show "dijkstra g s s = Some 0" by (rule R(2))
  show "0 \<le> m" "m \<le> DBL_MAX" if "dijkstra g s t = Some m" for t m
    using R(3) [OF that] by simp_all
  show "walk g s t m" if "dijkstra g s t = Some m" "m < DBL_MAX" for t m
    using R(3) [OF that(1)] that(2) by simp
  show "dijkstra g s t = Some DBL_MAX"
    if t: "t \<in> set (getAllNodeIds g)" and un: "\<not> reachable g s t" for t
  proof -
    from t dom obtain m where m: "dijkstra g s t = Some m" by blast
    from R(3) [OF m] un have "m \<le> DBL_MAX" "\<not> m < DBL_MAX"
      by (auto simp: reachable_def)
    with m show ?thesis by simp
  qed
  show "\<exists>m. minCost g s t m \<and> dijkstra g s t = Some m"
    if "walk g s t d \<and> d < DBL_MAX" for t d
  proof -
    from that have w: "walk g s t d" and small: "d < DBL_MAX" by simp_all
    from R(4) [OF w] obtain m where m: "dijkstra g s t = Some m" "m \<le> d" by blast
    with small R(3) [OF m(1)] have "walk g s t m" by simp
    moreover have "m \<le> d'" if "walk g s t d'" for d'
      using R(4) [OF that] m(1) by simp
    ultimately have "minCost g s t m" by (simp add: minCost_def)
    with m(1) show ?thesis by blast
  qed
  show "dijkstra g s t = Some DBL_MAX"
    if t: "t \<in> set (getAllNodeIds g)" and far: "\<forall>d. walk g s t d \<longrightarrow> DBL_MAX \<le> d" for t
  proof -
    from t dom obtain m where m: "dijkstra g s t = Some m" by blast
    from R(3) [OF m] far have "m \<le> DBL_MAX" "\<not> m < DBL_MAX" by auto
    with m show ?thesis by simp
  qed
qed

lemmas walk_eval = walk.step [OF walk.start, simplified]

lemma hugeGraph_walk:
  assumes "walk hugeGraph 0 t d"
  shows "(t = 0 \<and> 0 \<le> d) \<or> (t = 1 \<and> 2 ^ 1023 \<le> d) \<or> (t = 2 \<and> 2 ^ 1024 \<le> d)"
  using assms
proof (induction rule: walk.induct)
  case start
  show ?case by simp
next
  case (step u d v e)
  from step.hyps(2) have
    "(u = 0 \<and> v = 1 \<or> u = 1 \<and> v = 0 \<or> u = 1 \<and> v = 2 \<or> u = 2 \<and> v = 1) \<and> cost e = 2 ^ 1023"
    by (auto simp: hugeGraph_def graph_eval split: if_splits)
  with step.IH show ?case by auto
qed

theorem C4_dijkstra_distances_witness:
  "nonNegativeCosts scenarioGraph \<and> endpointsDeclared scenarioGraph
   \<and> dijkstra scenarioGraph 0 0 = Some 0
   \<and> dijkstra scenarioGraph 0 1 = Some 2
   \<and> dijkstra scenarioGraph 0 2 = Some 3
   \<and> minCost scenarioGraph 0 2 3
   \<and> nonNegativeCosts hugeGraph \<and> endpointsDeclared hugeGraph
   \<and> dijkstra hugeGraph 0 2 = Some DBL_MAX"
proof -
  have nn: "nonNegativeCosts scenarioGraph" and decl: "endpointsDeclared scenarioGraph"
    by (simp_all add: nonNegativeCosts_def endpointsDeclared_def scenarioGraph_def graph_eval)
  have d: "dijkstra scenarioGraph 0 0 = Some 0" "dijkstra scenarioGraph 0 1 = Some 2"
    "dijkstra scenarioGraph 0 2 = Some 3"
    by (simp_all add: dijkstra_eval relax.simps dijkstraStep.simps scenarioGraph_def graph_eval)
  have "(2, \<lparr>u_edge = 0, v_edge = 2, cost = 3, reliability = 9 / 10\<rparr>)
      \<in> set (getNeighbors scenarioGraph 0)"
    by (simp add: scenarioGraph_def graph_eval)
  from walk.step [OF walk.start this] have "walk scenarioGraph 0 2 3" by simp
  moreover have "(3::real) < DBL_MAX" by (rule below_DBL_MAX) simp
  ultimately have "\<exists>m. minCost scenarioGraph 0 2 m \<and> dijkstra scenarioGraph 0 2 = Some m"
    using C4_dijkstra_distances [OF nn decl, of 0] by blast
  with d(3) have m: "minCost scenarioGraph 0 2 3" by simp
  have nn': "nonNegativeCosts hugeGraph" and decl': "endpointsDeclared hugeGraph"
    by (simp_all add: nonNegativeCosts_def endpointsDeclared_def hugeGraph_def graph_eval)
  have "(2::real) ^ 1024 = 2 * 2 ^ 1023" by simp
  also have "\<dots> \<ge> DBL_MAX" by (simp add: DBL_MAX_def)
  finally have big: "DBL_MAX \<le> 2 ^ 1024" .
  have far: "\<forall>d. walk hugeGraph 0 2 d \<longrightarrow> DBL_MAX \<le> d"
  proof (intro allI impI)
    fix d assume "walk hugeGraph 0 2 d"
    from hugeGraph_walk [OF this] big show "DBL_MAX \<le> d" by simp
  qed
  have "2 \<in> set (getAllNodeIds hugeGraph)" by (simp add: hugeGraph_def graph_eval)
  with far C4_dijkstra_distances [OF nn' decl', of 0]
  have h: "dijkstra hugeGraph 0 2 = Some DBL_MAX" by blast
  from nn decl d m nn' decl' h show ?thesis by simp
qed

theorem C4_counterexample:
  "nonNegativeCosts gapGraph \<and> 0 \<in> set (getAllNodeIds gapGraph)
   \<and> dijkstra gapGraph 0 2 = Some DBL_MAX \<and> walk gapGraph 0 2 2
   \<and> \<not> claimedDistances gapGraph 0
   \<and> nonNegativeCosts hugeGraph \<and> 0 \<in> set (getAllNodeIds hugeGraph)
   \<and> dijkstra hugeGraph 0 2 = Some DBL_MAX \<and> walk hugeGraph 0 2 (2 ^ 1024)
   \<and> \<not> claimedDistances hugeGraph 0"
proof -
  have small: "(2::real) < DBL_MAX" "(2::real) ^ 1023 < DBL_MAX"
    "\<not> (2::real) ^ 1023 + 2 ^ 1023 < DBL_MAX" "\<not> (2::real) ^ 1024 \<le> DBL_MAX"
    by (simp_all add: DBL_MAX_def)
  have g1: "nonNegativeCosts gapGraph" "0 \<in> set (getAllNodeIds gapGraph)"
    by (simp_all add: nonNegativeCosts_def gapGraph_def graph_eval)
  have g2: "dijkstra gapGraph 0 2 = Some DBL_MAX"
    by (simp add: dijkstra_eval relax.simps dijkstraStep.simps gapGraph_def graph_eval)
  have "(1, \<lparr>u_edge = 0, v_edge = 1, cost = 1, reliability = 1\<rparr>) \<in> set (getNeighbors gapGraph 0)"
    by (simp add: gapGraph_def graph_eval)
  from walk.step [OF walk.start this] have "walk gapGraph 0 1 1" by simp
  moreover have "(2, \<lparr>u_edge = 1, v_edge = 2, cost = 1, reliability = 1\<rparr>) \<in> set (getNeighbors gapGraph 1)"
    by (simp add: gapGraph_def graph_eval)
  ultimately have g3: "walk gapGraph 0 2 2" using walk.step [of gapGraph 0 1 1] by fastforce
  have g4: "\<not> claimedDistances gapGraph 0"
  proof
    assume "claimedDistances gapGraph 0"
    moreover from g3 have "reachable gapGraph 0 2" by (auto simp: reachable_def)
    ultimately obtain d where "minCost gapGraph 0 2 d" "dijkstra gapGraph 0 2 = Some d"
      unfolding claimedDistances_def by blast
    with g2 g3 have "DBL_MAX \<le> 2" by (auto simp: minCost_def)
    with small show False by simp
  qed
  have h1: "nonNegativeCosts hugeGraph" "0 \<in> set (getAllNodeIds hugeGraph)"
    by (simp_all add: nonNegativeCosts_def hugeGraph_def graph_eval)
  have h2: "dijkstra hugeGraph 0 2 = Some DBL_MAX"
    using small(2,3)
    by (simp add: dijkstra_eval relax.simps dijkstraStep.simps hugeGraph_def graph_eval)
  have "(1, \<lparr>u_edge = 0, v_edge = 1, cost = 2 ^ 1023, reliability = 1\<rparr>)
      \<in> set (getNeighbors hugeGraph 0)"
    by (simp add: hugeGraph_def graph_eval)
  from walk.step [OF walk.start this] have "walk hugeGraph 0 1 (2 ^ 1023)" by simp
  moreover have "(2, \<lparr>u_edge = 1, v_edge = 2, cost = 2 ^ 1023, reliability = 1\<rparr>)
      \<in> set (getNeighbors hugeGraph 1)"
    by (simp add: hugeGraph_def graph_eval)
  ultimately have "walk hugeGraph 0 2 (2 ^ 1023 + 2 ^ 1023)"
    using walk.step [of hugeGraph 0 1 "2 ^ 1023"] by fastforce
  then have h3: "walk hugeGraph 0 2 (2 ^ 1024)" by simp
  have h4: "\<not> claimedDistances hugeGraph 0"
  proof
    assume "claimedDistances hugeGraph 0"
    moreover from h3 have "reachable hugeGraph 0 2" by (auto simp: reachable_def)
    ultimately obtain d where "minCost hugeGraph 0 2 d" "dijkstra hugeGraph 0 2 = Some d"
      unfolding claimedDistances_def by blast
    with h2 have "walk hugeGraph 0 2 DBL_MAX" by (simp add: minCost_def)
    from hugeGraph_walk [OF this] small(4) show False by simp
  qed
  from g1 g2 g3 g4 h1 h2 h3 h4 show ?thesis by simp
qed

subsection \<open>The nearest feasible vehicle\<close>













lemmas astar_eval = astar_def astarInit_def astarLoop.simps astarStep_def astarRelax_def
  reconstruct.simps heuristic_def Let_def touch_def valueAt_def pairLess_def below_DBL_MAX

lemma getNeighbors_entry:
  assumes "neighbor \<in> set (getNeighbors g u)"
  shows "\<exists>entry \<in> set (adjacencyList g). fst entry = u \<and> neighbor \<in> set (snd entry)"
proof (cases "map_of (adjacencyList g) u")
  case None
  with assms show ?thesis by (simp add: getNeighbors_def)
next
  case (Some ns)
  with assms have "neighbor \<in> set ns" by (simp add: getNeighbors_def)
  moreover from Some have "(u, ns) \<in> set (adjacencyList g)" by (rule map_of_SomeD)
  ultimately show ?thesis by force
qed

lemma consistent_step:
  "consistentHeuristic g t \<Longrightarrow> neighbor \<in> set (getNeighbors g u) \<Longrightarrow>
   heuristic u t \<le> cost (snd neighbor) + heuristic (fst neighbor) t"
  using getNeighbors_entry [of neighbor g u] by (auto simp: consistentHeuristic_def)

lemma cheapest_step:
  "cheapestFirst g \<Longrightarrow> neighbor \<in> set (getNeighbors g u) \<Longrightarrow>
   getEdgeCost g u (fst neighbor) \<le> cost (snd neighbor)"
  using getNeighbors_entry [of neighbor g u] by (auto simp: cheapestFirst_def)

lemma consistent_walk:
  assumes "consistentHeuristic g t" "walk g a b r"
  shows "heuristic a t \<le> r + heuristic b t"
  using assms(2)
proof (induction rule: walk.induct)
  case start
  show ?case by simp
next
  case (step u d v e)
  from consistent_step [OF assms(1) step.hyps(2)] step.IH show ?case by simp
qed

text \<open>A walk that leaves \<open>A\<close>, cut at the first entry that leaves it.\<close>

lemma walk_exit_rest:
  assumes "walk g s t d" "s \<in> A" "t \<notin> A"
  shows "\<exists>x dx neighbor r. x \<in> A \<and> walk g s x dx \<and> neighbor \<in> set (getNeighbors g x)
    \<and> fst neighbor \<notin> A \<and> walk g (fst neighbor) t r \<and> d = dx + cost (snd neighbor) + r"
  using assms(1,3)
proof (induction rule: walk.induct)
  case start
  with assms(2) show ?case by simp
next
  case (step u d v e)
  show ?case
  proof (cases "u \<in> A")
    case True
    have "walk g v v 0" by (rule walk.start)
    with True step.hyps step.prems show ?thesis
      by (intro exI [of _ u] exI [of _ d] exI [of _ "(v, e)"] exI [of _ 0]) simp
  next
    case False
    from step.IH [OF False] obtain x dx neighbor r where
      x: "x \<in> A" "walk g s x dx" "neighbor \<in> set (getNeighbors g x)" "fst neighbor \<notin> A"
      "walk g (fst neighbor) u r" "d = dx + cost (snd neighbor) + r" by blast
    from walk.step [OF x(5) step.hyps(2)] have "walk g (fst neighbor) v (r + cost e)" .
    with x show ?thesis
      by (intro exI [of _ x] exI [of _ dx] exI [of _ neighbor] exI [of _ "r + cost e"]) simp
  qed
qed

subsection \<open>Tree paths\<close>

lemma treePath_walk: "treePath g s A came gs v path d \<Longrightarrow> walk g s v d"
  by (induction rule: treePath.induct) (auto intro: walk.intros)

lemma treePath_score: "treePath g s A came gs v path d \<Longrightarrow> gs v = Some d"
  by (induction rule: treePath.induct) auto

lemma treePath_mono:
  "treePath g s A came gs v path d \<Longrightarrow> A \<subseteq> B \<Longrightarrow> treePath g s B came gs v path d"
  by (induction rule: treePath.induct) (auto intro: treePath.intros)

lemma treePath_update:
  assumes "treePath g s A came gs w path d" "v \<notin> A" "w \<noteq> v" "s \<noteq> v"
  shows "treePath g s A (came(v \<mapsto> x)) (gs(v \<mapsto> y)) w path d"
  using assms(1,3)
proof (induction rule: treePath.induct)
  case root
  with assms(4) show ?case by (auto intro: treePath.root)
next
  case (child p path dp w e)
  from child.hyps(2) assms(2) have "p \<noteq> v" by auto
  from child.IH [OF this] child.hyps(2-5) child.prems show ?case
    by (auto intro: treePath.child)
qed

lemma treePath_ends:
  "treePath g s A came gs v path d \<Longrightarrow> path \<noteq> [] \<and> hd path = s \<and> last path = v"
  by (induction rule: treePath.induct) (auto simp: hd_append)

lemma treePath_ids:
  assumes "endpointsDeclared g" "treePath g s A came gs v path d"
  shows "set path \<subseteq> insert s (set (getAllNodeIds g))"
  using assms(2)
proof (induction rule: treePath.induct)
  case root
  show ?case by simp
next
  case (child p path dp v e)
  from neighbor_declared [OF assms(1) child.hyps(4)] child.IH show ?case by simp
qed

lemma reconstruct_treePath:
  assumes "treePath g s A came gs v path d" "- 1 \<notin> set path"
  shows "reconstruct came v acc = Some (acc @ rev path)"
  using assms
proof (induction arbitrary: acc rule: treePath.induct)
  case root
  then show ?case by (simp add: reconstruct.simps)
next
  case (child p path dp v e)
  from child.prems have "v \<noteq> - 1" "- 1 \<notin> set path" by auto
  with child.IH [of "acc @ [v]"] child.hyps(3) show ?case
    by (subst reconstruct.simps) simp
qed

lemma edgeCostSum_snoc:
  "path \<noteq> [] \<Longrightarrow> edgeCostSum g (path @ [v]) = edgeCostSum g path + getEdgeCost g (last path) v"
proof (induction path)
  case Nil
  then show ?case by simp
next
  case (Cons a path)
  then show ?case by (cases path) (simp_all add: edgeCostSum_def)
qed

lemma getEdgeCost_entry:
  assumes "neighbor \<in> set (getNeighbors g u)"
  shows "\<exists>e. (fst neighbor, e) \<in> set (getNeighbors g u) \<and> getEdgeCost g u (fst neighbor) = cost e"
proof (cases "List.find (\<lambda>nb. fst nb = fst neighbor) (getNeighbors g u)")
  case None
  then have "\<forall>nb \<in> set (getNeighbors g u). fst nb \<noteq> fst neighbor"
    by (auto simp: find_None_iff)
  with assms show ?thesis by blast
next
  case (Some nb)
  then have "nb \<in> set (getNeighbors g u)" "fst nb = fst neighbor"
    by (auto simp: find_Some_iff)
  then have "(fst neighbor, snd nb) \<in> set (getNeighbors g u)"
    by (metis prod.collapse)
  with Some show ?thesis
    by (intro exI [of _ "snd nb"]) (simp add: getEdgeCost_def)
qed

lemma treePath_cost:
  assumes "cheapestFirst g" "treePath g s A came gs v path d"
  shows "edgeCostSum g path \<le> d \<and> walk g s v (edgeCostSum g path)"
  using assms(2)
proof (induction rule: treePath.induct)
  case root
  show ?case by (simp add: edgeCostSum_def walk.start)
next
  case (child p path dp v e)
  from treePath_ends [OF child.hyps(1)] have ne: "path \<noteq> []" and lst: "last path = p" by simp_all
  then have sum: "edgeCostSum g (path @ [v]) = edgeCostSum g path + getEdgeCost g p v"
    by (simp add: edgeCostSum_snoc)
  from cheapest_step [OF assms(1) child.hyps(4)] have le: "getEdgeCost g p v \<le> cost e" by simp
  from getEdgeCost_entry [OF child.hyps(4)] obtain e' where
    e': "(v, e') \<in> set (getNeighbors g p)" "getEdgeCost g p v = cost e'" by auto
  from child.IH have "walk g s p (edgeCostSum g path)" by simp
  from walk.step [OF this e'(1)] have "walk g s v (edgeCostSum g (path @ [v]))"
    by (simp add: sum e'(2))
  with child.IH le sum show ?case by simp
qed

lemma roadsExist_snoc:
  "path \<noteq> [] \<Longrightarrow>
   roadsExist g (path @ [v]) \<longleftrightarrow> roadsExist g path \<and> v \<in> fst ` set (getNeighbors g (last path))"
proof (induction path)
  case Nil
  then show ?case by simp
next
  case (Cons a path)
  then show ?case by (cases path) (auto simp: roadsExist_def)
qed

lemma treePath_roads: "treePath g s A came gs v path d \<Longrightarrow> roadsExist g path"
proof (induction rule: treePath.induct)
  case root
  show ?case by (simp add: roadsExist_def)
next
  case (child p path dp v e)
  from treePath_ends [OF child.hyps(1)] have "path \<noteq> []" "last path = p" by simp_all
  moreover from child.hyps(4) have "v \<in> fst ` set (getNeighbors g p)" by force
  ultimately show ?case using child.IH by (simp add: roadsExist_snoc)
qed

text \<open>Along roads that exist no lookup is negative, so the cost loop of \<^verbatim>\<open>twoOpt\<close> accepts
  the path and adds up the looked-up costs.\<close>

lemma roadsExist_routeCostValid:
  assumes "nonNegativeCosts g" "roadsExist g path"
  shows "routeCostValid g path acc = Some (acc + edgeCostSum g path)"
proof (cases "routeCostValid g path acc")
  case None
  then obtain a b where ab: "(a, b) \<in> set (zip path (tl path))" "getEdgeCost g a b < 0"
    by (auto simp: routeCostValid_None)
  with assms(2) have "b \<in> fst ` set (getNeighbors g a)"
    by (auto simp: roadsExist_def list_all_iff)
  then obtain neighbor where nb: "neighbor \<in> set (getNeighbors g a)" "fst neighbor = b" by auto
  from getEdgeCost_entry [OF nb(1)] nb(2) obtain e where
    e: "(b, e) \<in> set (getNeighbors g a)" "getEdgeCost g a b = cost e" by auto
  from neighbor_cost_nonneg [OF assms(1) e(1)] e(2) ab(2) show ?thesis by simp
next
  case (Some c)
  from routeCostValid_Some [OF this] Some show ?thesis by simp
qed

lemma astarRelax_preserves:
  assumes nn: "nonNegativeCosts g" and decl: "endpointsDeclared g"
    and inv: "astarInv g s t ({u} \<times> set (neighbor # rest)) st"
    and u: "u \<in> visitedSet (visitedA st)"
    and nb: "neighbor \<in> set (getNeighbors g u)"
  shows "astarInv g s t ({u} \<times> set rest) (astarRelax t u st neighbor)"
proof -
  let ?A = "visitedSet (visitedA st)"
  let ?G = "gScore st" and ?CF = "cameFrom st" and ?Q = "pqA st"
  let ?v = "fst neighbor" and ?c = "cost (snd neighbor)"
  note I = inv [unfolded astarInv_def]
  from I have dom: "dom ?G = set (getAllNodeIds g) \<union> {s}" by blast
  from I have lab: "\<And>w d. ?G w = Some d \<Longrightarrow> 0 \<le> d \<and> d \<le> DBL_MAX
      \<and> (d < DBL_MAX \<longrightarrow> (\<exists>path. treePath g s ?A ?CF ?G w path d))"
    by blast
  from I have que: "\<And>entry. entry \<in> set ?Q \<Longrightarrow> \<exists>d. ?G (snd entry) = Some d \<and> d < DBL_MAX
      \<and> d + heuristic (snd entry) t \<le> fst entry" by blast
  from I have open_nodes: "\<And>w d. w \<notin> ?A \<Longrightarrow> ?G w = Some d \<Longrightarrow> d < DBL_MAX \<Longrightarrow>
      (d + heuristic w t, w) \<in> set ?Q"
    by blast
  from I have closed: "\<And>x. x \<in> ?A \<Longrightarrow> \<exists>dx. ?G x = Some dx \<and> dx < DBL_MAX
            \<and> (\<forall>d. walk g s x d \<longrightarrow> dx \<le> d)
            \<and> (\<forall>nb' \<in> set (getNeighbors g x). (x, nb') \<notin> {u} \<times> set (neighbor # rest) \<longrightarrow>
                  (\<exists>dv. ?G (fst nb') = Some dv \<and> dv \<le> dx + cost (snd nb')))"
    by blast
  from I u have src: "s \<in> ?A" by blast
  from I have tgt: "t \<notin> ?A" by blast
  from closed [OF u] obtain du where
    du: "?G u = Some du" "du < DBL_MAX" "\<And>d. walk g s u d \<Longrightarrow> du \<le> d" by blast
  from lab [OF du(1)] du(2) obtain pathu where
    pu: "treePath g s ?A ?CF ?G u pathu du" and du0: "0 \<le> du" by blast
  from pu have wu: "walk g s u du" by (rule treePath_walk)
  from neighbor_declared [OF decl nb] dom obtain dv where dv: "?G ?v = Some dv"
    by blast
  note c0 = neighbor_cost_nonneg [OF nn nb]
  have wv: "walk g s ?v (du + ?c)"
    using walk.step [OF wu, of ?v "snd neighbor"] nb by simp
  have t: "touch ?G u 0 = ?G" "touch ?G ?v 0 = ?G" "valueAt ?G u 0 = du" "valueAt ?G ?v 0 = dv"
    using du(1) dv by (simp_all add: touch_present valueAt_present)
  show ?thesis
  proof (cases "du + ?c < dv")
    case less: True
    have vA: "?v \<notin> ?A"
    proof
      assume "?v \<in> ?A"
      from closed [OF this] dv wv have "dv \<le> du + ?c" by auto
      with less show False by simp
    qed
    with u src have uv: "u \<noteq> ?v" and sv: "s \<noteq> ?v" by auto
    let ?G' = "?G(?v \<mapsto> du + ?c)" and ?CF' = "?CF(?v \<mapsto> u)"
    let ?Q' = "?Q @ [(du + ?c + heuristic ?v t, ?v)]"
    let ?st' = "st\<lparr>cameFrom := ?CF', gScore := ?G',
        fScore := (fScore st)(?v \<mapsto> du + ?c + heuristic ?v t), pqA := ?Q'\<rparr>"
    from less have eq: "astarRelax t u st neighbor = ?st'"
      by (simp add: astarRelax_def Let_def t)
    from lab [OF dv] less have small: "du + ?c < DBL_MAX" by simp
    have keep: "treePath g s ?A ?CF' ?G' w path d"
      if "treePath g s ?A ?CF ?G w path d" "w \<noteq> ?v" for w path d
      using that(1) vA that(2) sv by (rule treePath_update)
    have newpath: "treePath g s ?A ?CF' ?G' ?v (pathu @ [?v]) (du + ?c)"
    proof (rule treePath.child)
      show "treePath g s ?A ?CF' ?G' u pathu du" using pu uv by (rule keep)
      show "u \<in> ?A" by (rule u)
      show "?CF' ?v = Some u" by simp
      show "(?v, snd neighbor) \<in> set (getNeighbors g u)" using nb by simp
      show "?G' ?v = Some (du + ?c)" by simp
    qed
    have "astarInv g s t ({u} \<times> set rest) ?st'"
      unfolding astarInv_def
    proof (intro conjI ballI allI impI)
      show "dom (gScore ?st') = set (getAllNodeIds g) \<union> {s}"
        using dom dv by auto
    next
      fix w d assume "gScore ?st' w = Some d"
      then have wd: "(w = ?v \<and> d = du + ?c) \<or> (w \<noteq> ?v \<and> ?G w = Some d)"
        by (auto split: if_splits)
      then show "0 \<le> d" "d \<le> DBL_MAX"
        using lab [of w d] du0 c0 small by auto
      assume "d < DBL_MAX"
      with wd lab [of w d] newpath keep
      show "\<exists>path. treePath g s (visitedSet (visitedA ?st')) (cameFrom ?st') (gScore ?st') w path d"
        by auto
    next
      fix entry assume "entry \<in> set (pqA ?st')"
      then have "entry = (du + ?c + heuristic ?v t, ?v) \<or> entry \<in> set ?Q" by auto
      then show "\<exists>d. gScore ?st' (snd entry) = Some d \<and> d < DBL_MAX
          \<and> d + heuristic (snd entry) t \<le> fst entry"
      proof
        assume "entry = (du + ?c + heuristic ?v t, ?v)"
        with small show ?thesis by simp
      next
        assume "entry \<in> set ?Q"
        from que [OF this] obtain d where d: "?G (snd entry) = Some d" "d < DBL_MAX"
          "d + heuristic (snd entry) t \<le> fst entry" by blast
        show ?thesis
        proof (cases "snd entry = ?v")
          case True
          with d dv less small show ?thesis by simp
        next
          case False
          with d show ?thesis by simp
        qed
      qed
    next
      fix w d assume "w \<notin> visitedSet (visitedA ?st') \<and> gScore ?st' w = Some d \<and> d < DBL_MAX"
      then show "(d + heuristic w t, w) \<in> set (pqA ?st')"
        using open_nodes [of w d] by (auto split: if_splits)
    next
      fix x assume "x \<in> visitedSet (visitedA ?st')"
      then have x: "x \<in> ?A" by simp
      with vA have xv: "x \<noteq> ?v" by auto
      from closed [OF x] obtain dx where dx: "?G x = Some dx" "dx < DBL_MAX"
        "\<forall>d. walk g s x d \<longrightarrow> dx \<le> d"
        "\<forall>nb' \<in> set (getNeighbors g x). (x, nb') \<notin> {u} \<times> set (neighbor # rest) \<longrightarrow>
                  (\<exists>dv. ?G (fst nb') = Some dv \<and> dv \<le> dx + cost (snd nb'))" by blast
      have "\<exists>dw. ?G' (fst nb') = Some dw \<and> dw \<le> dx + cost (snd nb')"
        if "nb' \<in> set (getNeighbors g x)" "(x, nb') \<notin> {u} \<times> set rest" for nb'
      proof (cases "x = u \<and> nb' = neighbor")
        case True
        with dx(1) du(1) show ?thesis by simp
      next
        case False
        with that dx(4) obtain dw where dw: "?G (fst nb') = Some dw"
          "dw \<le> dx + cost (snd nb')" by auto
        show ?thesis
        proof (cases "fst nb' = ?v")
          case True
          with dw dv less show ?thesis by simp
        next
          case False
          with dw show ?thesis by simp
        qed
      qed
      with dx xv show "\<exists>du. gScore ?st' x = Some du \<and> du < DBL_MAX
            \<and> (\<forall>d. walk g s x d \<longrightarrow> du \<le> d)
            \<and> (\<forall>neighbor \<in> set (getNeighbors g x). (x, neighbor) \<notin> {u} \<times> set rest \<longrightarrow>
                  (\<exists>dv. gScore ?st' (fst neighbor) = Some dv \<and> dv \<le> du + cost (snd neighbor)))"
        by simp
    next
      show "s \<in> visitedSet (visitedA ?st')
         \<or> (visitedSet (visitedA ?st') = {} \<and> pqA ?st' = [(heuristic s t, s)]
             \<and> gScore ?st' s = Some 0)"
        using src by simp
    next
      show "t \<notin> visitedSet (visitedA ?st')" using tgt by simp
    qed
    with eq show ?thesis by simp
  next
    case notless: False
    then have eq: "astarRelax t u st neighbor = st"
      by (simp add: astarRelax_def Let_def t)
    from notless dv have new: "\<exists>d. ?G ?v = Some d \<and> d \<le> du + ?c" by simp
    have "astarInv g s t ({u} \<times> set rest) st"
      unfolding astarInv_def
    proof (intro conjI ballI allI impI)
      fix x assume x: "x \<in> ?A"
      from closed [OF x] obtain dx where dx: "?G x = Some dx" "dx < DBL_MAX"
        "\<forall>d. walk g s x d \<longrightarrow> dx \<le> d"
        "\<forall>nb' \<in> set (getNeighbors g x). (x, nb') \<notin> {u} \<times> set (neighbor # rest) \<longrightarrow>
                  (\<exists>dv. ?G (fst nb') = Some dv \<and> dv \<le> dx + cost (snd nb'))" by blast
      have "\<exists>dv. ?G (fst nb') = Some dv \<and> dv \<le> dx + cost (snd nb')"
        if "nb' \<in> set (getNeighbors g x)" "(x, nb') \<notin> {u} \<times> set rest" for nb'
      proof (cases "x = u \<and> nb' = neighbor")
        case True
        with new dx(1) du(1) show ?thesis by simp
      next
        case False
        with that dx(4) show ?thesis by auto
      qed
      with dx show "\<exists>du. ?G x = Some du \<and> du < DBL_MAX
            \<and> (\<forall>d. walk g s x d \<longrightarrow> du \<le> d)
            \<and> (\<forall>neighbor \<in> set (getNeighbors g x). (x, neighbor) \<notin> {u} \<times> set rest \<longrightarrow>
                  (\<exists>dv. ?G (fst neighbor) = Some dv \<and> dv \<le> du + cost (snd neighbor)))"
        by blast
    qed (use dom lab que open_nodes src tgt in \<open>blast+\<close>)
    with eq show ?thesis by simp
  qed
qed

lemma foldl_astarRelax_preserves:
  assumes nn: "nonNegativeCosts g" and decl: "endpointsDeclared g"
    and inv: "astarInv g s t ({u} \<times> set nbs) st"
    and u: "u \<in> visitedSet (visitedA st)"
    and sub: "set nbs \<subseteq> set (getNeighbors g u)"
  shows "astarInv g s t {} (foldl (astarRelax t u) st nbs)"
  using inv u sub
proof (induction nbs arbitrary: st)
  case Nil
  then show ?case by simp
next
  case (Cons neighbor rest)
  from Cons.prems have nb: "neighbor \<in> set (getNeighbors g u)"
    and rest: "set rest \<subseteq> set (getNeighbors g u)" by auto
  from astarRelax_preserves [OF nn decl Cons.prems(1,2) nb]
  have i: "astarInv g s t ({u} \<times> set rest) (astarRelax t u st neighbor)" .
  from Cons.prems(2) have "u \<in> visitedSet (visitedA (astarRelax t u st neighbor))" by simp
  from Cons.IH [OF i this rest] show ?case by simp
qed

lemma astar_pop_optimal:
  assumes nn: "nonNegativeCosts g" and cons: "consistentHeuristic g t"
    and inv: "astarInv g s t {} st"
    and tp: "pqTop (pqA st) = Some tp"
    and new: "snd tp \<notin> visitedSet (visitedA st)"
  shows "\<exists>du. gScore st (snd tp) = Some du \<and> du < DBL_MAX \<and> (\<forall>d. walk g s (snd tp) d \<longrightarrow> du \<le> d)"
proof -
  let ?A = "visitedSet (visitedA st)"
  let ?G = "gScore st" and ?Q = "pqA st"
  let ?u = "snd tp"
  note I = inv [unfolded astarInv_def, simplified]
  from I have que: "\<And>entry. entry \<in> set ?Q \<Longrightarrow> \<exists>d. ?G (snd entry) = Some d \<and> d < DBL_MAX
      \<and> d + heuristic (snd entry) t \<le> fst entry" by blast
  from I have open_nodes: "\<And>w d. w \<notin> ?A \<Longrightarrow> ?G w = Some d \<Longrightarrow> d < DBL_MAX \<Longrightarrow>
      (d + heuristic w t, w) \<in> set ?Q"
    by blast
  from I have closed: "\<And>x. x \<in> ?A \<Longrightarrow> \<exists>dx. ?G x = Some dx \<and> dx < DBL_MAX
            \<and> (\<forall>d. walk g s x d \<longrightarrow> dx \<le> d)
            \<and> (\<forall>nb' \<in> set (getNeighbors g x).
                  (\<exists>dv. ?G (fst nb') = Some dv \<and> dv \<le> dx + cost (snd nb')))"
    by blast
  from I have src: "s \<in> ?A \<or> (?A = {} \<and> ?Q = [(heuristic s t, s)] \<and> ?G s = Some 0)" by blast
  from tp have mem: "tp \<in> set ?Q" by (rule pqTop_in)
  from que [OF mem] obtain du where du: "?G ?u = Some du" "du < DBL_MAX"
    "du + heuristic ?u t \<le> fst tp" by blast
  from pqTop_fst_least [OF tp open_nodes [OF new du(1,2)]] du(3)
  have top: "fst tp = du + heuristic ?u t" by simp
  have "du \<le> d" if w: "walk g s ?u d" for d
  proof (cases "s \<in> ?A")
    case True
    from walk_exit_rest [OF w True new] obtain x dx neighbor r where
      x: "x \<in> ?A" "walk g s x dx" "neighbor \<in> set (getNeighbors g x)"
        "fst neighbor \<notin> ?A" "walk g (fst neighbor) ?u r" "d = dx + cost (snd neighbor) + r"
      by blast
    from closed [OF x(1)] x(2,3) obtain dx0 dy where
      "?G x = Some dx0" "dx0 \<le> dx"
      and dy: "?G (fst neighbor) = Some dy" "dy \<le> dx0 + cost (snd neighbor)"
      by blast
    then have le: "dy \<le> dx + cost (snd neighbor)" by simp
    from consistent_walk [OF cons x(5)]
    have h: "heuristic (fst neighbor) t \<le> r + heuristic ?u t" .
    from walk_nonneg [OF nn x(5)] have r0: "0 \<le> r" .
    show ?thesis
    proof (cases "dy < DBL_MAX")
      case True
      from pqTop_fst_least [OF tp open_nodes [OF x(4) dy(1) True]]
      have "fst tp \<le> dy + heuristic (fst neighbor) t" by simp
      with top le h x(6) show ?thesis by simp
    next
      case False
      with le r0 x(6) du(2) show ?thesis by simp
    qed
  next
    case False
    with src mem have "tp = (heuristic s t, s)" "?G s = Some 0" by auto
    with du(1) have "du = 0" by simp
    with walk_nonneg [OF nn w] show ?thesis by simp
  qed
  with du(1,2) show ?thesis by blast
qed

lemma astarStep_preserves:
  assumes nn: "nonNegativeCosts g" and decl: "endpointsDeclared g"
    and cons: "consistentHeuristic g t" and first: "cheapestFirst g"
    and marker: "s \<noteq> - 1" "- 1 \<notin> set (getAllNodeIds g)"
    and inv: "astarInv g s t {} st"
    and tp: "pqTop (pqA st) = Some tp"
  shows "(\<exists>st'. astarStep g t st = Inr st' \<and> astarInv g s t {} st')
    \<or> (\<exists>path. astarStep g t st = Inl (Some path) \<and> optimalPath g s t path)"
proof -
  let ?A = "visitedSet (visitedA st)"
  let ?G = "gScore st" and ?Q = "pqA st" and ?CF = "cameFrom st"
  let ?u = "snd tp"
  note I = inv [unfolded astarInv_def, simplified]
  from I have dom: "dom ?G = set (getAllNodeIds g) \<union> {s}" by blast
  from I have lab: "\<And>w d. ?G w = Some d \<Longrightarrow> 0 \<le> d \<and> d \<le> DBL_MAX
      \<and> (d < DBL_MAX \<longrightarrow> (\<exists>path. treePath g s ?A ?CF ?G w path d))"
    by blast
  from I have que: "\<And>entry. entry \<in> set ?Q \<Longrightarrow> \<exists>d. ?G (snd entry) = Some d \<and> d < DBL_MAX
      \<and> d + heuristic (snd entry) t \<le> fst entry" by blast
  from I have open_nodes: "\<And>w d. w \<notin> ?A \<Longrightarrow> ?G w = Some d \<Longrightarrow> d < DBL_MAX \<Longrightarrow>
      (d + heuristic w t, w) \<in> set ?Q"
    by blast
  from I have closed: "\<And>x. x \<in> ?A \<Longrightarrow> \<exists>dx. ?G x = Some dx \<and> dx < DBL_MAX
            \<and> (\<forall>d. walk g s x d \<longrightarrow> dx \<le> d)
            \<and> (\<forall>nb' \<in> set (getNeighbors g x).
                  (\<exists>dv. ?G (fst nb') = Some dv \<and> dv \<le> dx + cost (snd nb')))"
    by blast
  from I have src: "s \<in> ?A \<or> (?A = {} \<and> ?Q = [(heuristic s t, s)] \<and> ?G s = Some 0)" by blast
  from I have tgt: "t \<notin> ?A" by blast
  from tp have mem: "tp \<in> set ?Q" by (rule pqTop_in)
  have rem: "set (remove1 tp ?Q) \<subseteq> set ?Q" by (rule set_remove1_subset)
  let ?st1 = "st\<lparr>pqA := remove1 tp ?Q, visitedA := touch (visitedA st) ?u False\<rparr>"
  show ?thesis
  proof (cases "?u \<in> ?A")
    case True
    then have eq: "astarStep g t st = Inr ?st1"
      by (simp add: astarStep_def tp Let_def valueAt_visited)
    from True src have s: "s \<in> ?A" by auto
    have keep: "(d + heuristic w t, w) \<in> set (remove1 tp ?Q)"
      if "w \<notin> ?A" "?G w = Some d" "d < DBL_MAX" for w d
    proof (rule in_remove1_other)
      from that show "(d + heuristic w t, w) \<in> set ?Q" by (rule open_nodes)
      from that(1) True show "(d + heuristic w t, w) \<noteq> tp" by auto
    qed
    have "astarInv g s t {} ?st1"
      unfolding astarInv_def
    proof (intro conjI ballI allI impI)
      fix w d assume "gScore ?st1 w = Some d"
      then have "?G w = Some d" by simp
      from lab [OF this] show "0 \<le> d" "d \<le> DBL_MAX"
        "d < DBL_MAX \<Longrightarrow> \<exists>path. treePath g s (visitedSet (visitedA ?st1)) (cameFrom ?st1)
            (gScore ?st1) w path d" by simp_all
    next
      fix entry assume "entry \<in> set (pqA ?st1)"
      with rem have "entry \<in> set ?Q" by auto
      from que [OF this] show "\<exists>d. gScore ?st1 (snd entry) = Some d \<and> d < DBL_MAX
          \<and> d + heuristic (snd entry) t \<le> fst entry" by simp
    next
      fix w d assume "w \<notin> visitedSet (visitedA ?st1) \<and> gScore ?st1 w = Some d \<and> d < DBL_MAX"
      then show "(d + heuristic w t, w) \<in> set (pqA ?st1)" using keep by simp
    next
      fix x assume "x \<in> visitedSet (visitedA ?st1)"
      then have "x \<in> ?A" by simp
      from closed [OF this] show "\<exists>du. gScore ?st1 x = Some du \<and> du < DBL_MAX
            \<and> (\<forall>d. walk g s x d \<longrightarrow> du \<le> d)
            \<and> (\<forall>neighbor \<in> set (getNeighbors g x). (x, neighbor) \<notin> {} \<longrightarrow>
                  (\<exists>dv. gScore ?st1 (fst neighbor) = Some dv \<and> dv \<le> du + cost (snd neighbor)))"
        by simp
    next
      show "s \<in> visitedSet (visitedA ?st1)
         \<or> (visitedSet (visitedA ?st1) = {} \<and> pqA ?st1 = [(heuristic s t, s)]
             \<and> gScore ?st1 s = Some 0)"
        using s by simp
    qed (use dom tgt in \<open>simp_all\<close>)
    with eq show ?thesis by blast
  next
    case False
    from astar_pop_optimal [OF nn cons inv tp False] obtain du where
      du: "?G ?u = Some du" "du < DBL_MAX" "\<And>d. walk g s ?u d \<Longrightarrow> du \<le> d" by blast
    from lab [OF du(1)] du(2) obtain path where
      path: "treePath g s ?A ?CF ?G ?u path du" by blast
    let ?vis2 = "(touch (visitedA st) ?u False)(?u \<mapsto> True)"
    let ?st2 = "?st1\<lparr>visitedA := ?vis2\<rparr>"
    have A2: "visitedSet ?vis2 = insert ?u ?A"
      by (auto simp: visitedSet_def touch_def split: option.splits)
    show ?thesis
    proof (cases "?u = t")
      case True
      from False have eq: "astarStep g t st = Inl (map_option rev (reconstruct ?CF t []))"
        by (simp add: astarStep_def tp Let_def valueAt_visited True)
      from treePath_ids [OF decl path] marker have "- 1 \<notin> set path" by auto
      from reconstruct_treePath [OF path this, of "[]"] True
      have "reconstruct ?CF t [] = Some (rev path)" by simp
      with eq have res: "astarStep g t st = Inl (Some path)" by simp
      from treePath_cost [OF first path] True
      have c: "edgeCostSum g path \<le> du" "walk g s t (edgeCostSum g path)" by simp_all
      from du(3) [of "edgeCostSum g path"] c True have "edgeCostSum g path = du" by simp
      with c(2) du(3) True have "minCost g s t (edgeCostSum g path)"
        by (simp add: minCost_def)
      with treePath_ends [OF path] treePath_roads [OF path] True have "optimalPath g s t path"
        by (simp add: optimalPath_def)
      with res show ?thesis by blast
    next
      case ne: False
      from False ne have eq: "astarStep g t st
          = Inr (foldl (astarRelax t ?u) ?st2 (getNeighbors g ?u))"
        by (simp add: astarStep_def tp Let_def valueAt_visited)
      have keep: "(d + heuristic w t, w) \<in> set (remove1 tp ?Q)"
        if "w \<notin> insert ?u ?A" "?G w = Some d" "d < DBL_MAX" for w d
      proof (rule in_remove1_other)
        from that show "(d + heuristic w t, w) \<in> set ?Q" using open_nodes [of w d] by simp
        from that(1) show "(d + heuristic w t, w) \<noteq> tp" by auto
      qed
      have "astarInv g s t ({?u} \<times> set (getNeighbors g ?u)) ?st2"
        unfolding astarInv_def
      proof (intro conjI ballI allI impI)
        fix w d assume "gScore ?st2 w = Some d"
        then have wd: "?G w = Some d" by simp
        from lab [OF this] show "0 \<le> d" "d \<le> DBL_MAX" by simp_all
        assume "d < DBL_MAX"
        with lab [OF wd] obtain p where "treePath g s ?A ?CF ?G w p d" by blast
        then have "treePath g s (insert ?u ?A) ?CF ?G w p d"
          by (rule treePath_mono) auto
        then show "\<exists>path. treePath g s (visitedSet (visitedA ?st2)) (cameFrom ?st2)
            (gScore ?st2) w path d" by (auto simp: A2)
      next
        fix entry assume "entry \<in> set (pqA ?st2)"
        with rem have "entry \<in> set ?Q" by auto
        from que [OF this] show "\<exists>d. gScore ?st2 (snd entry) = Some d \<and> d < DBL_MAX
            \<and> d + heuristic (snd entry) t \<le> fst entry" by simp
      next
        fix w d assume "w \<notin> visitedSet (visitedA ?st2) \<and> gScore ?st2 w = Some d \<and> d < DBL_MAX"
        then show "(d + heuristic w t, w) \<in> set (pqA ?st2)" using keep by (simp add: A2)
      next
        fix x assume "x \<in> visitedSet (visitedA ?st2)"
        then have "x = ?u \<or> x \<in> ?A" by (simp add: A2)
        then show "\<exists>dx. gScore ?st2 x = Some dx \<and> dx < DBL_MAX
            \<and> (\<forall>d. walk g s x d \<longrightarrow> dx \<le> d)
            \<and> (\<forall>neighbor \<in> set (getNeighbors g x).
                  (x, neighbor) \<notin> {?u} \<times> set (getNeighbors g ?u) \<longrightarrow>
                  (\<exists>dv. gScore ?st2 (fst neighbor) = Some dv \<and> dv \<le> dx + cost (snd neighbor)))"
        proof
          assume "x = ?u"
          with du show ?thesis by auto
        next
          assume "x \<in> ?A"
          from closed [OF this] obtain dx where "?G x = Some dx" "dx < DBL_MAX"
            "\<forall>d. walk g s x d \<longrightarrow> dx \<le> d"
            "\<forall>nb' \<in> set (getNeighbors g x).
                  (\<exists>dv. ?G (fst nb') = Some dv \<and> dv \<le> dx + cost (snd nb'))" by blast
          then show ?thesis by (intro exI [of _ dx]) simp
        qed
      next
        show "s \<in> visitedSet (visitedA ?st2)
            \<or> (visitedSet (visitedA ?st2) = {} \<and> pqA ?st2 = [(heuristic s t, s)]
               \<and> gScore ?st2 s = Some 0)"
          using src mem by (auto simp: A2)
      next
        show "t \<notin> visitedSet (visitedA ?st2)" using tgt ne by (simp add: A2)
      qed (use dom in \<open>simp_all\<close>)
      from foldl_astarRelax_preserves [OF nn decl this]
      have "astarInv g s t {} (foldl (astarRelax t ?u) ?st2 (getNeighbors g ?u))"
        by (simp add: A2)
      with eq show ?thesis by blast
    qed
  qed
qed

lemma astarLoop_optimal:
  assumes nn: "nonNegativeCosts g" and decl: "endpointsDeclared g"
    and cons: "consistentHeuristic g t" and first: "cheapestFirst g"
    and marker: "s \<noteq> - 1" "- 1 \<notin> set (getAllNodeIds g)"
    and reach: "walk g s t d0" "d0 < DBL_MAX"
    and inv: "astarInv g s t {} st"
  shows "\<exists>path. astarLoop g t st = Some path \<and> optimalPath g s t path"
  using assms
proof (induction g t st rule: astarLoop.induct)
  case (1 g t st)
  note nn = "1.prems"(1) and decl = "1.prems"(2) and cons = "1.prems"(3) and first = "1.prems"(4)
    and marker = "1.prems"(5,6) and reach = "1.prems"(7,8) and inv = "1.prems"(9)
  let ?A = "visitedSet (visitedA st)"
  show ?case
  proof (cases "pqA st = []")
    case True
    note I = inv [unfolded astarInv_def True, simplified]
    from I have src: "s \<in> ?A" and tgt: "t \<notin> ?A" by blast+
    from I have open_nodes: "\<And>w d. w \<notin> ?A \<Longrightarrow> gScore st w = Some d \<Longrightarrow> \<not> d < DBL_MAX"
      by blast
    from I have closed: "\<And>x. x \<in> ?A \<Longrightarrow> \<exists>dx. gScore st x = Some dx \<and> dx < DBL_MAX
            \<and> (\<forall>d. walk g s x d \<longrightarrow> dx \<le> d)
            \<and> (\<forall>nb' \<in> set (getNeighbors g x).
                  (\<exists>dv. gScore st (fst nb') = Some dv \<and> dv \<le> dx + cost (snd nb')))"
      by blast
    from walk_exit [OF nn reach(1) src tgt] obtain x dx neighbor where
      x: "x \<in> ?A" "walk g s x dx" "neighbor \<in> set (getNeighbors g x)"
        "fst neighbor \<notin> ?A" "dx + cost (snd neighbor) \<le> d0" by blast
    from closed [OF x(1)] x(2,3) obtain dx0 dy where
      "gScore st x = Some dx0" "dx0 \<le> dx"
      and dy: "gScore st (fst neighbor) = Some dy" "dy \<le> dx0 + cost (snd neighbor)"
      by blast
    with x(5) reach(2) have "dy < DBL_MAX" by simp
    with open_nodes [OF x(4) dy(1)] show ?thesis by simp
  next
    case False
    then obtain tp where tp: "pqTop (pqA st) = Some tp" by (cases "pqTop (pqA st)") auto
    from astarStep_preserves [OF nn decl cons first marker inv tp] show ?thesis
    proof (elim disjE exE conjE)
      fix st'
      assume step: "astarStep g t st = Inr st'" and inv': "astarInv g s t {} st'"
      from "1.IH" [OF False step nn decl cons first marker reach inv']
      show ?thesis using False step by (simp add: astarLoop.simps)
    next
      fix path
      assume "astarStep g t st = Inl (Some path)" "optimalPath g s t path"
      with False show ?thesis by (simp add: astarLoop.simps)
    qed
  qed
qed

lemma astarInv_init: "astarInv g s t {} (astarInit g s t)"
proof -
  let ?G = "\<lambda>k. if k = s then Some 0 else if k \<in> set (getAllNodeIds g) then Some DBL_MAX else None"
  have g: "gScore (astarInit g s t) = ?G"
    by (auto simp: astarInit_def Let_def foldl_map_upd fun_eq_iff)
  have v: "visitedSet (visitedA (astarInit g s t)) = {}"
    by (auto simp: astarInit_def Let_def foldl_map_upd visitedSet_def)
  have q: "pqA (astarInit g s t) = [(heuristic s t, s)]"
    and c: "cameFrom (astarInit g s t) = Map.empty"
    by (simp_all add: astarInit_def Let_def)
  have root: "treePath g s {} Map.empty ?G s [s] 0"
    by (rule treePath.root) simp_all
  show ?thesis
    unfolding astarInv_def g v q c
  proof (intro conjI ballI allI impI)
    fix w d
    assume "?G w = Some d"
    then have wd: "(w = s \<and> d = 0) \<or> d = DBL_MAX" by (auto split: if_splits)
    then show "0 \<le> d" "d \<le> DBL_MAX" using DBL_MAX_pos by auto
    assume "d < DBL_MAX"
    with wd root show "\<exists>path. treePath g s {} Map.empty ?G w path d" by auto
  next
    fix entry assume "entry \<in> set [(heuristic s t, s)]"
    then show "\<exists>d. ?G (snd entry) = Some d \<and> d < DBL_MAX \<and> d + heuristic (snd entry) t \<le> fst entry"
      using DBL_MAX_pos by simp
  next
    fix w d assume "w \<notin> {} \<and> ?G w = Some d \<and> d < DBL_MAX"
    then show "(d + heuristic w t, w) \<in> set [(heuristic s t, s)]"
      by (auto split: if_splits)
  qed (auto split: if_splits)
qed

lemma consistent_admissible:
  assumes "consistentHeuristic g t"
  shows "admissibleHeuristic g t"
  unfolding admissibleHeuristic_def
proof (intro allI impI)
  fix v d assume "walk g v t d"
  from consistent_walk [OF assms this] show "heuristic v t \<le> d"
    by (simp add: heuristic_def)
qed

text \<open>
  Claim C8, as amended.  The graph has no negative edge cost, every id that an adjacency
  entry names is an id of the node map, the road that a lookup finds between two ids is
  a cheapest one, and \<open>-1\<close> (the marker of the path reconstruction) is not an id.  The
  heuristic \<open>|id - target|\<close> is consistent, which makes it admissible, and the target
  is reachable from the source at a cost below \<open>DBL_MAX\<close>.  Then \<^verbatim>\<open>astar\<close> returns a path
  from the source to the target along roads of the graph: every id of the path has an
  adjacency entry that names the next id, and no lookup along the path is negative.  The
  total of the looked-up edge costs of the path is the minimum cost, which is also what
  \<^verbatim>\<open>dijkstra\<close> reports for the target.
\<close>

theorem C8_astar_optimal_when_consistent:
  assumes "nonNegativeCosts g" and "endpointsDeclared g" and "cheapestFirst g"
    and "consistentHeuristic g t"
    and "s \<noteq> - 1" and "- 1 \<notin> set (getAllNodeIds g)"
    and "walk g s t d" and "d < DBL_MAX"
  shows "admissibleHeuristic g t
    \<and> (\<exists>path m. astar g s t = Some path \<and> path \<noteq> [] \<and> hd path = s \<and> last path = t
          \<and> roadsExist g path \<and> routeCostValid g path 0 = Some m
          \<and> edgeCostSum g path = m \<and> dijkstra g s t = Some m \<and> minCost g s t m)"
proof
  show "admissibleHeuristic g t" using assms(4) by (rule consistent_admissible)
  from astarLoop_optimal [OF assms(1,2,4,3,5,6,7,8) astarInv_init]
  obtain path where path: "astar g s t = Some path" "optimalPath g s t path"
    unfolding astar_def by blast
  let ?m = "edgeCostSum g path"
  from path(2) have ends: "path \<noteq> []" "hd path = s" "last path = t"
    and roads: "roadsExist g path"
    and m: "walk g s t ?m" "\<And>d'. walk g s t d' \<Longrightarrow> ?m \<le> d'"
    by (simp_all add: optimalPath_def minCost_def)
  from roadsExist_routeCostValid [OF assms(1) roads, of 0]
  have valid: "routeCostValid g path 0 = Some ?m" by simp
  from dijkstra_result(4) [OF assms(1,2) assms(7)] obtain m' where
    m': "dijkstra g s t = Some m'" "m' \<le> d" by blast
  with assms(8) dijkstra_result(3) [OF assms(1,2) m'(1)] have "walk g s t m'" by simp
  from m(2) [OF this] dijkstra_result(4) [OF assms(1,2) m(1)] m'(1) have "m' = ?m" by simp
  with m'(1) have "dijkstra g s t = Some ?m" by simp
  moreover from m have "minCost g s t ?m" by (simp add: minCost_def)
  ultimately show "\<exists>path m. astar g s t = Some path \<and> path \<noteq> [] \<and> hd path = s
      \<and> last path = t \<and> roadsExist g path \<and> routeCostValid g path 0 = Some m
      \<and> edgeCostSum g path = m \<and> dijkstra g s t = Some m \<and> minCost g s t m"
    using path(1) ends roads valid by blast
qed

theorem C8_astar_optimal_when_consistent_witness:
  "nonNegativeCosts scenarioGraph \<and> endpointsDeclared scenarioGraph \<and> cheapestFirst scenarioGraph
   \<and> consistentHeuristic scenarioGraph 0
   \<and> astar scenarioGraph 2 0 = Some [2, 0]
   \<and> roadsExist scenarioGraph [2, 0]
   \<and> routeCostValid scenarioGraph [2, 0] 0 = Some 3
   \<and> edgeCostSum scenarioGraph [2, 0] = 3
   \<and> dijkstra scenarioGraph 2 0 = Some 3
   \<and> minCost scenarioGraph 2 0 3"
proof -
  have h: "nonNegativeCosts scenarioGraph" "endpointsDeclared scenarioGraph"
    "cheapestFirst scenarioGraph" "consistentHeuristic scenarioGraph 0"
    "- 1 \<notin> set (getAllNodeIds scenarioGraph)"
    by (simp_all add: nonNegativeCosts_def endpointsDeclared_def cheapestFirst_def
        consistentHeuristic_def heuristic_def getEdgeCost_def scenarioGraph_def graph_eval)
  have a: "astar scenarioGraph 2 0 = Some [2, 0]"
    by (simp add: astar_eval scenarioGraph_def graph_eval)
  have "(0, \<lparr>u_edge = 0, v_edge = 2, cost = 3, reliability = 9 / 10\<rparr>)
      \<in> set (getNeighbors scenarioGraph 2)"
    by (simp add: scenarioGraph_def graph_eval)
  from walk.step [OF walk.start this] have w: "walk scenarioGraph 2 0 3" by simp
  have small: "(3::real) < DBL_MAX" by (rule below_DBL_MAX) simp
  have e: "edgeCostSum scenarioGraph [2, 0] = 3"
    by (simp add: edgeCostSum_def getEdgeCost_def scenarioGraph_def graph_eval)
  from C8_astar_optimal_when_consistent [OF h(1,2,3,4) _ h(5) w small] a e
  have "roadsExist scenarioGraph [2, 0] \<and> routeCostValid scenarioGraph [2, 0] 0 = Some 3
      \<and> dijkstra scenarioGraph 2 0 = Some 3 \<and> minCost scenarioGraph 2 0 3" by auto
  with h a e show ?thesis by simp
qed

lemma apartGraph_walk: "walk apartGraph a b d \<Longrightarrow> b = a \<and> d = 0"
proof (induction rule: walk.induct)
  case start
  show ?case by simp
next
  case (step u d v e)
  from step.hyps(2) show ?case
    by (simp add: apartGraph_def graph_eval split: if_splits)
qed

lemma detourGraph_walk:
  assumes "walk detourGraph a b d"
  shows "(a \<notin> {0, 1, 2, 22} \<and> b = a \<and> d = 0)
    \<or> (a \<in> {0, 1, 2, 22} \<and> b \<in> {0, 1, 2, 22} \<and> detourLevel a - detourLevel b \<le> d)"
  using assms
proof (induction rule: walk.induct)
  case start
  show ?case by auto
next
  case (step u d v e)
  from step.hyps(2) have
    "u \<in> {0, 1, 2, 22} \<and> v \<in> {0, 1, 2, 22} \<and> detourLevel u - detourLevel v \<le> cost e"
    by (auto simp: detourGraph_def graph_eval detourLevel_def split: if_splits)
  with step.IH show ?case by auto
qed

theorem C8_counterexample:
  "nonNegativeCosts apartGraph \<and> admissibleHeuristic apartGraph 1
   \<and> astar apartGraph 0 1 = Some [] \<and> dijkstra apartGraph 0 1 = Some DBL_MAX
   \<and> \<not> claimedAstar apartGraph 0 1
   \<and> nonNegativeCosts detourGraph \<and> admissibleHeuristic detourGraph 0
   \<and> astar detourGraph 2 0 = Some [2, 0] \<and> edgeCostSum detourGraph [2, 0] = 25
   \<and> dijkstra detourGraph 2 0 = Some 24
   \<and> \<not> claimedAstar detourGraph 2 0"
proof -
  have a1: "nonNegativeCosts apartGraph"
    by (simp add: nonNegativeCosts_def apartGraph_def graph_eval)
  have a2: "admissibleHeuristic apartGraph 1"
    unfolding admissibleHeuristic_def
  proof (intro allI impI)
    fix v d assume "walk apartGraph v 1 d"
    from apartGraph_walk [OF this] show "heuristic v 1 \<le> d" by (simp add: heuristic_def)
  qed
  have a3: "astar apartGraph 0 1 = Some []"
    by (simp add: astar_eval apartGraph_def graph_eval)
  have a4: "dijkstra apartGraph 0 1 = Some DBL_MAX"
    by (simp add: dijkstra_eval relax.simps dijkstraStep.simps apartGraph_def graph_eval)
  have a5: "\<not> claimedAstar apartGraph 0 1"
    using DBL_MAX_pos by (simp add: claimedAstar_def a3 a4 edgeCostSum_def)
  have d1: "nonNegativeCosts detourGraph"
    by (simp add: nonNegativeCosts_def detourGraph_def graph_eval)
  have d2: "admissibleHeuristic detourGraph 0"
    unfolding admissibleHeuristic_def
  proof (intro allI impI)
    fix v d assume "walk detourGraph v 0 d"
    from detourGraph_walk [OF this]
    have "v \<in> {0, 1, 2, 22}" "detourLevel v \<le> d" by (auto simp: detourLevel_def)
    then show "heuristic v 0 \<le> d" by (auto simp: heuristic_def detourLevel_def)
  qed
  have d3: "astar detourGraph 2 0 = Some [2, 0]"
    by (simp add: astar_eval detourGraph_def graph_eval)
  have d4: "edgeCostSum detourGraph [2, 0] = 25"
    by (simp add: edgeCostSum_def getEdgeCost_def detourGraph_def graph_eval)
  have d5: "dijkstra detourGraph 2 0 = Some 24"
    by (simp add: dijkstra_eval relax.simps dijkstraStep.simps detourGraph_def graph_eval)
  have d6: "\<not> claimedAstar detourGraph 2 0"
    by (simp add: claimedAstar_def d3 d4 d5)
  from a1 a2 a3 a4 a5 d1 d2 d3 d4 d5 d6 show ?thesis by simp
qed

end
